theory Spec2Isabelle
  imports Complex_Main "HOL-Library.Char_ord" "HOL-Library.List_Lexorder"
begin

section \<open>Python values\<close>

text \<open>
  The values that \<^verbatim>\<open>json.loads\<close> returns and \<^verbatim>\<open>json.dumps\<close> accepts: \<^verbatim>\<open>None\<close>,
  booleans, integers, floats, strings, lists and dictionaries. A dictionary is an
  association list in insertion order; its keys are distinct when Python built it.
\<close>

datatype json =
    JNull
  | JBool bool
  | JInt int
  | JFloat real
  | JStr string
  | JList "json list"
  | JDict "(string \<times> json) list"

text \<open>The exceptions of the modelled code that no handler of that code catches.\<close>

datatype pyerr = TypeError | AttributeError

text \<open>Truth value of a Python object, as \<^verbatim>\<open>x or y\<close> tests it.\<close>

fun truthy :: "json \<Rightarrow> bool" where
  "truthy JNull = False"
| "truthy (JBool b) = b"
| "truthy (JInt i) = (i \<noteq> 0)"
| "truthy (JFloat r) = (r \<noteq> 0)"
| "truthy (JStr s) = (s \<noteq> [])"
| "truthy (JList xs) = (xs \<noteq> [])"
| "truthy (JDict d) = (d \<noteq> [])"

text \<open>Lists and dictionaries are the unhashable values: testing them for membership
  in a \<^verbatim>\<open>set\<close> raises \<^verbatim>\<open>TypeError\<close>.\<close>

fun hashable :: "json \<Rightarrow> bool" where
  "hashable (JList xs) = False"
| "hashable (JDict d) = False"
| "hashable v = True"

text \<open>\<^verbatim>\<open>d[k] = v\<close>: an existing key keeps its position, a new key goes last.\<close>

fun dict_set :: "('k \<times> 'v) list \<Rightarrow> 'k \<Rightarrow> 'v \<Rightarrow> ('k \<times> 'v) list" where
  "dict_set [] k v = [(k, v)]"
| "dict_set ((k', v') # d) k v =
     (if k' = k then (k, v) # d else (k', v') # dict_set d k v)"

text \<open>\<^verbatim>\<open>{**d, **kw}\<close>: the entries of \<open>kw\<close> are stored into \<open>d\<close> one by one.\<close>

fun dict_merge :: "('k \<times> 'v) list \<Rightarrow> ('k \<times> 'v) list \<Rightarrow> ('k \<times> 'v) list" where
  "dict_merge d [] = d"
| "dict_merge d ((k, v) # kw) = dict_merge (dict_set d k v) kw"

text \<open>\<^verbatim>\<open>d.get(k, default)\<close>.\<close>

definition dict_get :: "('k \<times> 'v) list \<Rightarrow> 'k \<Rightarrow> 'v \<Rightarrow> 'v" where
  "dict_get d k dflt = (case map_of d k of Some v \<Rightarrow> v | None \<Rightarrow> dflt)"

definition LF :: char where
  "LF = CHR 0x0A"

definition CR :: char where
  "CR = CHR 0x0D"


section \<open>The event writer (class AgentLogger)\<close>

text \<open>
  The writer's fields that its logging methods read or write: the session id, the agent
  id, the counter \<^verbatim>\<open>_seq\<close> and the text of the session file \<^verbatim>\<open>_log_file\<close> that
  \<^verbatim>\<open>log\<close> opens in append mode. The clock (\<^verbatim>\<open>_now\<close>) and the serialiser
  (\<^verbatim>\<open>json.dumps\<close>) are parameters of the model.
\<close>

record logger =
  session_id :: string
  agent_id :: string
  seq :: int
  log_file :: string

text \<open>\<^verbatim>\<open>__init__\<close> with an explicit session id: the counter starts at 0. The session
  file is whatever text is already on disk under that name (\<open>existing\<close>).\<close>

definition init_logger :: "string \<Rightarrow> string \<Rightarrow> string \<Rightarrow> logger" where
  "init_logger sid aid existing =
     \<lparr>session_id = sid, agent_id = aid, seq = 0, log_file = existing\<rparr>"

text \<open>Decimal digits of a natural number, most significant first.\<close>

fun dec :: "nat \<Rightarrow> string" where
  "dec n = (if n < 10 then [''0123456789'' ! n]
            else dec (n div 10) @ [''0123456789'' ! (n mod 10)])"

declare dec.simps [simp del]

definition zfill :: "nat \<Rightarrow> string \<Rightarrow> string" where
  "zfill w s = replicate (w - length s) CHR ''0'' @ s"

text \<open>The format specification \<^verbatim>\<open>03d\<close>: sign first, then zeros up to width 3.\<close>

definition format_03d :: "int \<Rightarrow> string" where
  "format_03d i =
     (if i < 0 then CHR ''-'' # zfill 2 (dec (nat (- i))) else zfill 3 (dec (nat i)))"

definition next_correlation_id :: "logger \<Rightarrow> string \<times> logger" where
  "next_correlation_id w =
     (let w' = w\<lparr>seq := seq w + 1\<rparr>
      in (''corr_'' @ session_id w' @ ''_'' @ format_03d (seq w'), w'))"

text \<open>The dictionary \<^verbatim>\<open>entry\<close> that \<^verbatim>\<open>log\<close> builds.\<close>

definition log_entry ::
  "string \<Rightarrow> logger \<Rightarrow> string \<Rightarrow> json \<Rightarrow> string \<Rightarrow> string \<Rightarrow> (string \<times> json) list
   \<Rightarrow> (string \<times> json) list" where
  "log_entry now w lvl correlation_id evt msg kwargs =
     dict_merge
       [(''ts'', JStr now), (''lvl'', JStr lvl), (''cid'', correlation_id),
        (''aid'', JStr (agent_id w)), (''evt'', JStr evt), (''msg'', JStr msg)]
       kwargs"

text \<open>
  \<^verbatim>\<open>self.log(lvl, evt, msg, **kws)\<close> (the method \<^verbatim>\<open>log\<close>; the name \<open>log\<close> is
  the logarithm in HOL). Python first binds the keywords to the signature
  \<^verbatim>\<open>log(self, lvl, evt, msg, *, cid=None, **kwargs)\<close>: a keyword that names a
  parameter already given by position is a \<^verbatim>\<open>TypeError\<close>, the keyword \<^verbatim>\<open>cid\<close> is the
  parameter \<^verbatim>\<open>cid\<close>, and the others are \<^verbatim>\<open>kwargs\<close>. The result is the correlation id
  and the writer with one more line in its file.
\<close>

definition log_call ::
  "(json \<Rightarrow> string) \<Rightarrow> string \<Rightarrow> logger \<Rightarrow> string \<Rightarrow> string \<Rightarrow> string
   \<Rightarrow> (string \<times> json) list \<Rightarrow> pyerr + (json \<times> logger)" where
  "log_call dumps now w lvl evt msg kws =
     (if list_ex (\<lambda>k. k \<in> set [''self'', ''lvl'', ''evt'', ''msg'']) (map fst kws)
      then Inl TypeError
      else
        let cid = dict_get kws ''cid'' JNull;
            kwargs = filter (\<lambda>kv. fst kv \<noteq> ''cid'') kws;
            msg1 = (if length msg > 100 then take 97 msg @ ''...'' else msg);
            (correlation_id, w1) =
               (if truthy cid then (cid, w)
                else (case next_correlation_id w of (c, w') \<Rightarrow> (JStr c, w')));
            entry = log_entry now w1 lvl correlation_id evt msg1 kwargs
        in Inr (correlation_id,
                w1\<lparr>log_file := log_file w1 @ dumps (JDict entry) @ [LF]\<rparr>))"

text \<open>
  \<^verbatim>\<open>escalation(reason, *, severity="blocked", context=None, **kwargs)\<close>. The call
  \<^verbatim>\<open>self.log(lvl, "escalation.raised", reason, **extra, **kwargs)\<close> raises
  \<^verbatim>\<open>TypeError\<close> when a keyword comes twice.
\<close>

definition escalation ::
  "(json \<Rightarrow> string) \<Rightarrow> string \<Rightarrow> logger \<Rightarrow> string \<Rightarrow> string \<Rightarrow> string option
   \<Rightarrow> (string \<times> json) list \<Rightarrow> pyerr + (json \<times> logger)" where
  "escalation dumps now w reason severity context kwargs =
     (let lvl = (if severity = ''security'' then ''error'' else ''warn'');
          extra = [(''severity'', JStr severity)];
          extra1 = (case context of
                      None \<Rightarrow> extra
                    | Some c \<Rightarrow> if c \<noteq> [] then dict_set extra ''context'' (JStr c) else extra);
          kws = extra1 @ kwargs
      in if \<not> distinct (map fst kws) then Inl TypeError
         else log_call dumps now w lvl ''escalation.raised'' reason kws)"

text \<open>A sequence of \<^verbatim>\<open>log\<close> calls on one writer, each with its own clock reading; the
  ids the calls return, in order. The first exception ends the sequence.\<close>

fun log_many ::
  "(json \<Rightarrow> string) \<Rightarrow> logger
   \<Rightarrow> (string \<times> string \<times> string \<times> string \<times> (string \<times> json) list) list
   \<Rightarrow> pyerr + (json list \<times> logger)" where
  "log_many dumps w [] = Inr ([], w)"
| "log_many dumps w ((now, lvl, evt, msg, kws) # calls) =
     (case log_call dumps now w lvl evt msg kws of
        Inl e \<Rightarrow> Inl e
      | Inr (c, w1) \<Rightarrow>
          (case log_many dumps w1 calls of
             Inl e \<Rightarrow> Inl e
           | Inr (cs, w2) \<Rightarrow> Inr (c # cs, w2)))"

text \<open>Reading a correlation id back: the text after the last underscore, and its value
  as a decimal numeral (\<^verbatim>\<open>int(s)\<close> on a string of digits).\<close>

definition suffix_of :: "string \<Rightarrow> string" where
  "suffix_of s = rev (takeWhile (\<lambda>c. c \<noteq> CHR ''_'') (rev s))"

definition digit_val :: "char \<Rightarrow> nat" where
  "digit_val c = of_char c - 48"

definition read_dec :: "string \<Rightarrow> nat" where
  "read_dec s = foldl (\<lambda>a c. 10 * a + digit_val c) 0 s"


section \<open>The log store\<close>

text \<open>
  A store is the directory \<^verbatim>\<open>log_dir\<close> laid out as the writer creates it,
  \<^verbatim>\<open>{log_dir}/{YYYY-MM-DD}/{session}.jsonl\<close>. A session file is known by the name of its
  directory (\<^verbatim>\<open>f.parent.name\<close>) and its stem (\<^verbatim>\<open>f.stem\<close>); it has a modification time
  (\<^verbatim>\<open>st_mtime\<close>) and a text. The list \<open>files\<close> is in the order in which
  \<^verbatim>\<open>log_dir.rglob("*.jsonl")\<close> yields the files, \<open>dirs\<close> are the directories that
  \<^verbatim>\<open>log_dir.iterdir()\<close> yields. A directory that does not exist is \<open>None\<close>.
  The text is the decoded text of the file and \<^verbatim>\<open>st_size\<close> its length: exact for the
  ASCII lines that the writer produces (\<^verbatim>\<open>json.dumps\<close> escapes everything else).
\<close>

record logfile =
  date_dir :: string
  stem :: string
  mtime :: real
  content :: string

type_synonym path = "string \<times> string"

definition path_of :: "logfile \<Rightarrow> path" where
  "path_of f = (date_dir f, stem f)"

definition st_size :: "logfile \<Rightarrow> int" where
  "st_size f = int (length (content f))"

record store =
  files :: "logfile list"
  dirs :: "string list"

text \<open>\<^verbatim>\<open>f in fs\<close> for a list of paths: paths are compared, not what \<^verbatim>\<open>stat\<close> says of them.\<close>

definition path_in :: "logfile \<Rightarrow> logfile list \<Rightarrow> bool" where
  "path_in f fs = (path_of f \<in> set (map path_of fs))"

text \<open>
  What the operating system decides: whether \<^verbatim>\<open>unlink\<close> and \<^verbatim>\<open>rmdir\<close> succeed, whether a
  file can be opened for reading and for writing (each failure is an \<^verbatim>\<open>OSError\<close>), and
  the modification time that a rewritten file gets. A write that fails half way is not
  modelled.
\<close>

record env =
  unlink_ok :: "path \<Rightarrow> bool"
  rmdir_ok :: "string \<Rightarrow> bool"
  can_read :: "path \<Rightarrow> bool"
  can_write :: "path \<Rightarrow> bool"
  write_time :: "path \<Rightarrow> real"

definition endswith :: "string \<Rightarrow> string \<Rightarrow> bool" where
  "endswith s suf = (length suf \<le> length s \<and> drop (length s - length suf) s = suf)"

definition startswith :: "string \<Rightarrow> string \<Rightarrow> bool" where
  "startswith s pre = (take (length pre) s = pre)"


section \<open>Store statistics (get\_log\_stats)\<close>

text \<open>Rounding to two decimals, as \<^verbatim>\<open>round(x, 2)\<close> does up to the rounding of floats.\<close>

definition round2 :: "real \<Rightarrow> real" where
  "round2 x = real_of_int (round (x * 100)) / 100"

text \<open>The dictionary that \<^verbatim>\<open>get_log_stats\<close> returns, key by key.\<close>

definition get_log_stats :: "store option \<Rightarrow> (string \<times> json) list" where
  "get_log_stats log_dir =
     (case log_dir of
        None \<Rightarrow>
          [(''total_files'', JInt 0), (''total_size_bytes'', JInt 0),
           (''total_size_mb'', JFloat 0), (''oldest_date'', JNull), (''newest_date'', JNull)]
      | Some st \<Rightarrow>
          let fs = files st;
              total_size = sum_list (map st_size fs);
              dates = sort (remdups (map date_dir
                        (filter (\<lambda>f. startswith (date_dir f) ''20'') fs)))
          in [(''total_files'', JInt (int (length fs))),
              (''total_size_bytes'', JInt total_size),
              (''total_size_mb'', JFloat (round2 (real_of_int total_size / (1024 * 1024)))),
              (''oldest_date'', if dates \<noteq> [] then JStr (hd dates) else JNull),
              (''newest_date'', if dates \<noteq> [] then JStr (last dates) else JNull),
              (''dates'', JList (map JStr dates))])"


section \<open>Retention (cleanup\_logs and the tool's cleanup)\<close>

text \<open>
  The reason strings: \<^verbatim>\<open>"older than {retention_days} days"\<close>,
  \<^verbatim>\<open>"over size limit ({max_size_mb}MB)"\<close> and \<^verbatim>\<open>"over file limit ({max_files})"\<close> of the
  library, \<^verbatim>\<open>"older than {retention_days}d"\<close>, \<^verbatim>\<open>"size limit"\<close> and \<^verbatim>\<open>"file limit"\<close> of
  the tool, each with the value it formats.
\<close>

datatype reason =
    OlderThanDays int
  | OverSizeLimit real
  | OverFileLimit int
  | OlderThanD int
  | SizeLimit
  | FileLimit

text \<open>The list \<^verbatim>\<open>files_to_delete\<close> and the dictionary \<^verbatim>\<open>reasons\<close>.\<close>

type_synonym plan = "logfile list \<times> (path \<times> reason) list"

text \<open>\<^verbatim>\<open>int(x)\<close> truncates towards zero; \<^verbatim>\<open>xs[:k]\<close> counts a negative \<open>k\<close> from the end.\<close>

definition py_int :: "real \<Rightarrow> int" where
  "py_int x = (if 0 \<le> x then \<lfloor>x\<rfloor> else \<lceil>x\<rceil>)"

definition slice_to :: "'a list \<Rightarrow> int \<Rightarrow> 'a list" where
  "slice_to xs k = (if 0 \<le> k then take (nat k) xs else take (length xs - nat (- k)) xs)"

text \<open>Stage 1 of \<^verbatim>\<open>cleanup_logs\<close>: the loop that marks the files of old date directories.
  The cutoff string is \<^verbatim>\<open>(now - timedelta(days=retention_days)).strftime("%Y-%m-%d")\<close>,
  which the clock decides; strings compare lexicographically.\<close>

fun mark_old :: "string \<Rightarrow> int \<Rightarrow> logfile list \<Rightarrow> plan \<Rightarrow> plan" where
  "mark_old cutoff_str retention_days [] p = p"
| "mark_old cutoff_str retention_days (f # fs) (files_to_delete, reasons) =
     (if date_dir f < cutoff_str
      then mark_old cutoff_str retention_days fs
             (files_to_delete @ [f],
              dict_set reasons (path_of f) (OlderThanDays retention_days))
      else mark_old cutoff_str retention_days fs (files_to_delete, reasons))"

text \<open>Stage 2 of \<^verbatim>\<open>cleanup_logs\<close>: the loop over \<^verbatim>\<open>remaining\<close>, with \<^verbatim>\<open>current_size\<close>.\<close>

fun size_loop :: "real \<Rightarrow> real \<Rightarrow> logfile list \<Rightarrow> int \<Rightarrow> plan \<Rightarrow> plan" where
  "size_loop max_size_bytes max_size_mb [] current_size p = p"
| "size_loop max_size_bytes max_size_mb (f # fs) current_size (files_to_delete, reasons) =
     (if real_of_int current_size \<le> max_size_bytes * 0.8
      then (files_to_delete, reasons)
      else if \<not> path_in f files_to_delete
      then size_loop max_size_bytes max_size_mb fs (current_size - st_size f)
             (files_to_delete @ [f],
              dict_set reasons (path_of f) (OverSizeLimit max_size_mb))
      else size_loop max_size_bytes max_size_mb fs current_size (files_to_delete, reasons))"

text \<open>Stage 3 of \<^verbatim>\<open>cleanup_logs\<close>: the loop over \<^verbatim>\<open>remaining[:excess]\<close>.\<close>

fun count_loop :: "int \<Rightarrow> logfile list \<Rightarrow> plan \<Rightarrow> plan" where
  "count_loop max_files [] p = p"
| "count_loop max_files (f # fs) (files_to_delete, reasons) =
     (if \<not> path_in f files_to_delete
      then count_loop max_files fs
             (files_to_delete @ [f], dict_set reasons (path_of f) (OverFileLimit max_files))
      else count_loop max_files fs (files_to_delete, reasons))"

text \<open>The three stages of \<^verbatim>\<open>cleanup_logs\<close>, one after the other: what is marked after
  the age stage, after the size stage and after the count stage.\<close>

definition lib_age_stage :: "logfile list \<Rightarrow> string \<Rightarrow> int \<Rightarrow> plan" where
  "lib_age_stage fs cutoff_str retention_days =
     (let all_files = sort_key mtime fs
      in mark_old cutoff_str retention_days all_files ([], []))"

definition lib_size_stage :: "logfile list \<Rightarrow> real \<Rightarrow> plan \<Rightarrow> plan" where
  "lib_size_stage fs max_size_mb p =
     (let all_files = sort_key mtime fs;
          total_size = sum_list (map st_size all_files);
          max_size_bytes = max_size_mb * 1024 * 1024
      in if real_of_int total_size > max_size_bytes
         then
           let remaining = filter (\<lambda>f. \<not> path_in f (fst p)) all_files;
               current_size = sum_list (map st_size remaining)
           in size_loop max_size_bytes max_size_mb remaining current_size p
         else p)"

definition lib_count_stage :: "logfile list \<Rightarrow> int \<Rightarrow> plan \<Rightarrow> plan" where
  "lib_count_stage fs max_files p =
     (let all_files = sort_key mtime fs;
          remaining = filter (\<lambda>f. \<not> path_in f (fst p)) all_files
      in if int (length remaining) > max_files
         then
           let excess = int (length remaining) - py_int (real_of_int max_files * 0.8)
           in count_loop max_files (slice_to remaining excess) p
         else p)"

definition cleanup_logs_plan :: "logfile list \<Rightarrow> string \<Rightarrow> int \<Rightarrow> real \<Rightarrow> int \<Rightarrow> plan" where
  "cleanup_logs_plan fs cutoff_str retention_days max_size_mb max_files =
     lib_count_stage fs max_files
       (lib_size_stage fs max_size_mb
          (lib_age_stage fs cutoff_str retention_days))"

text \<open>The deletion loop: an \<^verbatim>\<open>unlink\<close> that raises \<^verbatim>\<open>OSError\<close> (refused, or the file is
  not there) is passed over; a success is counted.\<close>

fun unlink_loop :: "env \<Rightarrow> logfile list \<Rightarrow> logfile list \<Rightarrow> nat \<Rightarrow> logfile list \<times> nat" where
  "unlink_loop e [] fs deleted_files = (fs, deleted_files)"
| "unlink_loop e (f # del) fs deleted_files =
     (if unlink_ok e (path_of f) \<and> path_in f fs
      then unlink_loop e del (filter (\<lambda>g. path_of g \<noteq> path_of f) fs) (deleted_files + 1)
      else unlink_loop e del fs deleted_files)"

text \<open>The loop that removes the date directories left empty.\<close>

definition rmdir_empty :: "env \<Rightarrow> string list \<Rightarrow> logfile list \<Rightarrow> string list" where
  "rmdir_empty e ds fs =
     filter (\<lambda>d. \<not> (list_all (\<lambda>f. date_dir f \<noteq> d) fs \<and> rmdir_ok e d)) ds"

text \<open>The result dictionary of \<^verbatim>\<open>cleanup_logs\<close> (the rounded \<^verbatim>\<open>freed_mb\<close> left out);
  the dictionary for a missing directory has other keys.\<close>

record cleanup_result =
  deleted_files :: nat
  freed_bytes :: int
  cl_dry_run :: bool
  cl_files :: "path list"
  cl_reasons :: "(path \<times> reason) list"

datatype cleanup_report = NoLogs | Report cleanup_result

definition cleanup_logs ::
  "env \<Rightarrow> store option \<Rightarrow> string \<Rightarrow> int \<Rightarrow> real \<Rightarrow> int \<Rightarrow> bool
   \<Rightarrow> store option \<times> cleanup_report" where
  "cleanup_logs e log_dir cutoff_str retention_days max_size_mb max_files dry_run =
     (case log_dir of
        None \<Rightarrow> (None, NoLogs)
      | Some st \<Rightarrow>
          let (files_to_delete, reasons) =
                cleanup_logs_plan (files st) cutoff_str retention_days max_size_mb max_files;
              freed = sum_list (map st_size files_to_delete)
          in if dry_run
             then (Some st,
                   Report \<lparr>deleted_files = length files_to_delete, freed_bytes = freed,
                           cl_dry_run = True, cl_files = map path_of files_to_delete,
                           cl_reasons = reasons\<rparr>)
             else
               let (fs', deleted) = unlink_loop e files_to_delete (files st) 0;
                   ds' = rmdir_empty e (dirs st) fs'
               in (Some \<lparr>files = fs', dirs = ds'\<rparr>,
                   Report \<lparr>deleted_files = deleted, freed_bytes = freed,
                           cl_dry_run = False, cl_files = [], cl_reasons = []\<rparr>))"

text \<open>The tool's \<^verbatim>\<open>cleanup\<close>: the same three stages, written a second time. Its
  variables \<^verbatim>\<open>files\<close> and \<^verbatim>\<open>total\<close> are \<open>sorted_files\<close> and \<open>tot\<close> here.\<close>

fun cli_mark_old :: "string \<Rightarrow> int \<Rightarrow> logfile list \<Rightarrow> plan \<Rightarrow> plan" where
  "cli_mark_old cutoff retention_days [] p = p"
| "cli_mark_old cutoff retention_days (f # fs) (to_delete, reasons) =
     (if date_dir f < cutoff
      then cli_mark_old cutoff retention_days fs
             (to_delete @ [f], dict_set reasons (path_of f) (OlderThanD retention_days))
      else cli_mark_old cutoff retention_days fs (to_delete, reasons))"

fun cli_size_loop :: "real \<Rightarrow> logfile list \<Rightarrow> int \<Rightarrow> plan \<Rightarrow> plan" where
  "cli_size_loop limit [] tot p = p"
| "cli_size_loop limit (f # fs) tot (to_delete, reasons) =
     (if real_of_int tot \<le> limit * 0.8
      then (to_delete, reasons)
      else cli_size_loop limit fs (tot - st_size f)
             (to_delete @ [f], dict_set reasons (path_of f) SizeLimit))"

fun cli_count_loop :: "logfile list \<Rightarrow> plan \<Rightarrow> plan" where
  "cli_count_loop [] p = p"
| "cli_count_loop (f # fs) (to_delete, reasons) =
     cli_count_loop fs (to_delete @ [f], dict_set reasons (path_of f) FileLimit)"

definition cli_age_stage :: "logfile list \<Rightarrow> string \<Rightarrow> int \<Rightarrow> plan" where
  "cli_age_stage fs cutoff retention_days =
     (let sorted_files = sort_key mtime fs
      in cli_mark_old cutoff retention_days sorted_files ([], []))"

definition cli_size_stage :: "logfile list \<Rightarrow> real \<Rightarrow> plan \<Rightarrow> plan" where
  "cli_size_stage fs max_size_mb p =
     (let sorted_files = sort_key mtime fs;
          remaining = filter (\<lambda>f. \<not> path_in f (fst p)) sorted_files;
          tot = sum_list (map st_size remaining);
          limit = max_size_mb * 1024 * 1024
      in if real_of_int tot > limit
         then cli_size_loop limit remaining tot p
         else p)"

definition cli_count_stage :: "logfile list \<Rightarrow> int \<Rightarrow> plan \<Rightarrow> plan" where
  "cli_count_stage fs max_files p =
     (let sorted_files = sort_key mtime fs;
          remaining = filter (\<lambda>f. \<not> path_in f (fst p)) sorted_files
      in if int (length remaining) > max_files
         then cli_count_loop
                (slice_to remaining
                   (int (length remaining) - py_int (real_of_int max_files * 0.8))) p
         else p)"

definition cleanup_plan :: "logfile list \<Rightarrow> string \<Rightarrow> int \<Rightarrow> real \<Rightarrow> int \<Rightarrow> plan" where
  "cleanup_plan fs cutoff retention_days max_size_mb max_files =
     cli_count_stage fs max_files
       (cli_size_stage fs max_size_mb
          (cli_age_stage fs cutoff retention_days))"


text \<open>The tool's result dictionary, with the freed bytes before they are rounded to
  \<^verbatim>\<open>freed_kb\<close> and \<^verbatim>\<open>freed_mb\<close>.\<close>

record cli_cleanup_result =
  deleted :: nat
  freed :: int
  cli_dry_run :: bool
  cli_files :: "(path \<times> reason option) list"




section \<open>Compaction (compact\_old\_sessions and the tool's compact)\<close>

definition preserve_events :: "string list" where
  "preserve_events =
     [''decision.made'', ''escalation.raised'', ''handoff.initiated'',
      ''hook.session_start'', ''hook.session_end'',
      ''task.started'', ''task.completed'', ''context.compacted'']"

text \<open>
  The test on a parsed line, the same text in both functions:
  \<^verbatim>\<open>evt = entry.get("evt", ""); lvl = entry.get("lvl", "");\<close>
  \<^verbatim>\<open>evt in preserve_events or lvl in ("error", "fatal", "warn")\<close>.
  A value without \<^verbatim>\<open>get\<close> raises \<^verbatim>\<open>AttributeError\<close>, an unhashable \<^verbatim>\<open>evt\<close> raises
  \<^verbatim>\<open>TypeError\<close> in the set; neither is caught.
\<close>

definition keep_entry :: "json \<Rightarrow> pyerr + bool" where
  "keep_entry entry =
     (case entry of
        JDict d \<Rightarrow>
          let evt = dict_get d ''evt'' (JStr []);
              lvl = dict_get d ''lvl'' (JStr [])
          in if \<not> hashable evt then Inl TypeError
             else Inr (evt \<in> set (map JStr preserve_events)
                       \<or> lvl \<in> set (map JStr [''error'', ''fatal'', ''warn'']))
      | _ \<Rightarrow> Inl AttributeError)"

text \<open>\<^verbatim>\<open>str.strip()\<close>: the whitespace characters below code point 256.\<close>

definition is_space :: "char \<Rightarrow> bool" where
  "is_space c =
     (c \<in> set [CHR 0x09, CHR 0x0A, CHR 0x0B, CHR 0x0C, CHR 0x0D, CHR 0x1C, CHR 0x1D,
               CHR 0x1E, CHR 0x1F, CHR 0x20, CHR 0x85, CHR 0xA0])"

definition strip :: "string \<Rightarrow> string" where
  "strip s = rev (dropWhile is_space (rev (dropWhile is_space s)))"

text \<open>
  \<^verbatim>\<open>for line in f\<close> on a file opened in text mode: a line ends at \<^verbatim>\<open>\n\<close>, \<^verbatim>\<open>\r\n\<close> or
  \<^verbatim>\<open>\r\<close>, each read as \<^verbatim>\<open>\n\<close> and kept at the end of the line; a last line without
  an end is yielded as it is. \<open>cur\<close> is the line read so far.
\<close>

fun readlines :: "string \<Rightarrow> string \<Rightarrow> string list" where
  "readlines cur [] = (if cur = [] then [] else [cur])"
| "readlines cur (c # cs) =
     (if c = LF then (cur @ [LF]) # readlines [] cs
      else if c = CR then
        (case cs of
           [] \<Rightarrow> [cur @ [LF]]
         | d # ds \<Rightarrow>
             if d = LF then (cur @ [LF]) # readlines [] ds
             else (cur @ [LF]) # readlines [] cs)
      else readlines (cur @ [c]) cs)"

text \<open>\<^verbatim>\<open>chr(10).join(lines)\<close>.\<close>

fun join_lines :: "string list \<Rightarrow> string" where
  "join_lines [] = []"
| "join_lines [l] = l"
| "join_lines (l # ls) = l @ [LF] @ join_lines ls"

text \<open>
  The loop of \<^verbatim>\<open>compact_old_sessions\<close> over the lines of one file. The parser
  \<^verbatim>\<open>json.loads\<close> is a parameter: \<open>None\<close> is \<^verbatim>\<open>JSONDecodeError\<close>.
\<close>

fun scan_lines :: "(string \<Rightarrow> json option) \<Rightarrow> string list \<Rightarrow> string list \<Rightarrow> pyerr + string list" where
  "scan_lines loads [] preserved_lines = Inr preserved_lines"
| "scan_lines loads (raw # rest) preserved_lines =
     (let line = strip raw
      in if line = [] then scan_lines loads rest preserved_lines
         else
           (case loads line of
              None \<Rightarrow> scan_lines loads rest preserved_lines
            | Some entry \<Rightarrow>
                (case keep_entry entry of
                   Inl err \<Rightarrow> Inl err
                 | Inr keep \<Rightarrow>
                     if keep then scan_lines loads rest (preserved_lines @ [line])
                     else scan_lines loads rest preserved_lines)))"

text \<open>
  The loop of \<^verbatim>\<open>compact_old_sessions\<close> over the files: \<open>todo\<close> are the files still to
  come, \<open>seen\<close> the files behind, as they now are, \<open>lfile\<close> is the loop variable
  \<^verbatim>\<open>log_file\<close>. An exception leaves the store as it is at that moment.
\<close>

fun compact_loop ::
  "env \<Rightarrow> (string \<Rightarrow> json option) \<Rightarrow> string \<Rightarrow> bool \<Rightarrow> logfile list \<Rightarrow> logfile list
   \<Rightarrow> nat \<Rightarrow> int \<Rightarrow> logfile list \<times> (pyerr + nat \<times> int)" where
  "compact_loop e loads cutoff_str dry_run [] seen compacted saved_b =
     (seen, Inr (compacted, saved_b))"
| "compact_loop e loads cutoff_str dry_run (lfile # todo) seen compacted saved_b =
     (if date_dir lfile \<ge> cutoff_str
      then compact_loop e loads cutoff_str dry_run todo (seen @ [lfile]) compacted saved_b
      else if endswith (stem lfile) ''_compacted''
      then compact_loop e loads cutoff_str dry_run todo (seen @ [lfile]) compacted saved_b
      else
        let original_size = st_size lfile
        in if \<not> can_read e (path_of lfile)
           then compact_loop e loads cutoff_str dry_run todo (seen @ [lfile])
                  compacted saved_b
           else
             (case scan_lines loads (readlines [] (content lfile)) [] of
                Inl err \<Rightarrow> (seen @ lfile # todo, Inl err)
              | Inr preserved_lines \<Rightarrow>
                  if \<not> dry_run \<and> preserved_lines \<noteq> []
                  then
                    if \<not> can_write e (path_of lfile)
                    then compact_loop e loads cutoff_str dry_run todo (seen @ [lfile])
                           compacted saved_b
                    else
                      let written = lfile
                            \<lparr>mtime := write_time e (path_of lfile),
                             content := join_lines preserved_lines @ [LF]\<rparr>;
                          new_size = st_size written
                      in compact_loop e loads cutoff_str dry_run todo (seen @ [written])
                           (compacted + 1) (saved_b + (original_size - new_size))
                  else compact_loop e loads cutoff_str dry_run todo (seen @ [lfile])
                         compacted saved_b))"

text \<open>The result dictionary of \<^verbatim>\<open>compact_old_sessions\<close> (the rounded \<^verbatim>\<open>saved_mb\<close> left
  out); the dictionary for a missing directory has no key \<^verbatim>\<open>dry_run\<close>.\<close>

record compact_result =
  compacted_files :: nat
  saved_bytes :: int
  co_dry_run :: "bool option"

definition compact_old_sessions ::
  "env \<Rightarrow> (string \<Rightarrow> json option) \<Rightarrow> store option \<Rightarrow> string \<Rightarrow> bool
   \<Rightarrow> store option \<times> (pyerr + compact_result)" where
  "compact_old_sessions e loads log_dir cutoff_str dry_run =
     (case log_dir of
        None \<Rightarrow> (None, Inr \<lparr>compacted_files = 0, saved_bytes = 0, co_dry_run = None\<rparr>)
      | Some st \<Rightarrow>
          (case compact_loop e loads cutoff_str dry_run (files st) [] 0 0 of
             (fs, Inl err) \<Rightarrow> (Some (st\<lparr>files := fs\<rparr>), Inl err)
           | (fs, Inr (compacted, saved_b)) \<Rightarrow>
               (Some (st\<lparr>files := fs\<rparr>),
                Inr \<lparr>compacted_files = compacted, saved_bytes = saved_b,
                     co_dry_run = Some dry_run\<rparr>)))"


definition line_boundary :: "char \<Rightarrow> bool" where
  "line_boundary c =
     (c \<in> set [CHR 0x0A, CHR 0x0B, CHR 0x0C, CHR 0x0D, CHR 0x1C, CHR 0x1D, CHR 0x1E,
               CHR 0x85])"







section \<open>Notions used to state the properties\<close>

text \<open>
  These definitions are not code of the program: they say, in the words of the
  specification, which files compaction applies to and which records it preserves, so
  that the loops above can be compared with them.
\<close>

text \<open>A file is eligible for compaction: its date directory is strictly older than the
  cutoff and its stem does not end in the compacted marker.\<close>

definition eligible :: "string \<Rightarrow> logfile \<Rightarrow> bool" where
  "eligible cutoff f = (date_dir f < cutoff \<and> \<not> endswith (stem f) ''_compacted'')"

text \<open>A record is preserved: its event type is in the fixed set or its level is one of
  error, fatal, warn.\<close>

definition spec_preserved :: "json \<Rightarrow> bool" where
  "spec_preserved j =
     (case j of
        JDict d \<Rightarrow>
          dict_get d ''evt'' (JStr []) \<in>
            JStr ` {''decision.made'', ''escalation.raised'', ''handoff.initiated'',
                    ''hook.session_start'', ''hook.session_end'', ''task.started'',
                    ''task.completed'', ''context.compacted''}
          \<or> dict_get d ''lvl'' (JStr []) \<in> JStr ` {''error'', ''fatal'', ''warn''}
      | _ \<Rightarrow> False)"

text \<open>The preserved records among the lines of a file, in their order: the lines that
  are not blank, parse, and are preserved.\<close>

definition spec_records :: "(string \<Rightarrow> json option) \<Rightarrow> string list \<Rightarrow> string list" where
  "spec_records loads lines =
     filter (\<lambda>l. strip l \<noteq> [] \<and> (case loads l of Some j \<Rightarrow> spec_preserved j | None \<Rightarrow> False))
       lines"

text \<open>Every line that parses is a record: a dictionary whose \<^verbatim>\<open>evt\<close>, when it has one, is
  not a list or a dictionary. (Lines that do not parse are allowed.)\<close>

definition record_lines :: "(string \<Rightarrow> json option) \<Rightarrow> string list \<Rightarrow> bool" where
  "record_lines loads lines =
     list_all (\<lambda>l. strip l = [] \<or>
        (case loads l of
           None \<Rightarrow> True
         | Some (JDict d) \<Rightarrow> hashable (dict_get d ''evt'' (JStr []))
         | Some _ \<Rightarrow> False)) lines"


text \<open>The file rewritten with the records \<open>recs\<close>, one per line.\<close>

definition compacted :: "env \<Rightarrow> string list \<Rightarrow> logfile \<Rightarrow> logfile" where
  "compacted e recs f =
     f\<lparr>mtime := write_time e (path_of f), content := concat (map (\<lambda>l. l @ [LF]) recs)\<rparr>"

text \<open>A stand-in for \<^verbatim>\<open>json.loads\<close> in the examples: it knows three lines and rejects
  every other text. The theorems hold for every parser.\<close>

definition sample_loads :: "string \<Rightarrow> json option" where
  \<open>sample_loads s =
     (if s = ''{"lvl":"debug","evt":"hook.pre_tool"}''
      then Some (JDict [(''lvl'', JStr ''debug''), (''evt'', JStr ''hook.pre_tool'')])
      else if s = ''{"lvl":"info","evt":"decision.made"}''
      then Some (JDict [(''lvl'', JStr ''info''), (''evt'', JStr ''decision.made'')])
      else if s = ''{"lvl":"error","evt":"tool.failed"}''
      then Some (JDict [(''lvl'', JStr ''error''), (''evt'', JStr ''tool.failed'')])
      else None)\<close>

text \<open>An operating system that refuses nothing, and writes at time 1000.\<close>

definition sample_env :: env where
  "sample_env =
     \<lparr>unlink_ok = (\<lambda>p. True), rmdir_ok = (\<lambda>d. True), can_read = (\<lambda>p. True),
      can_write = (\<lambda>p. True), write_time = (\<lambda>p. 1000)\<rparr>"

text \<open>The notions of the size stage: the byte total of a list of files, and the files
  that a plan has not marked, oldest first.\<close>

definition bytes :: "logfile list \<Rightarrow> int" where
  "bytes fs = sum_list (map st_size fs)"




section \<open>Properties of the event writer\<close>

subsection \<open>Dictionaries\<close>

lemma map_of_dict_set: "map_of (dict_set d k v) k' = (if k' = k then Some v else map_of d k')"
  by (induction d) auto

lemma map_of_dict_merge_other:
  "k \<notin> fst ` set kw \<Longrightarrow> map_of (dict_merge d kw) k = map_of d k"
  by (induction d kw rule: dict_merge.induct) (auto simp: map_of_dict_set)

lemma log_entry_msg:
  "''msg'' \<notin> fst ` set kwargs \<Longrightarrow> dict_get (log_entry now w lvl c evt m kwargs) ''msg'' dflt = JStr m"
  by (simp add: dict_get_def log_entry_def map_of_dict_merge_other)

lemma log_entry_evt:
  "''evt'' \<notin> fst ` set kwargs \<Longrightarrow> dict_get (log_entry now w lvl c evt m kwargs) ''evt'' dflt = JStr evt"
  by (simp add: dict_get_def log_entry_def map_of_dict_merge_other)

lemma log_entry_lvl:
  "''lvl'' \<notin> fst ` set kwargs \<Longrightarrow> dict_get (log_entry now w lvl c evt m kwargs) ''lvl'' dflt = JStr lvl"
  by (simp add: dict_get_def log_entry_def map_of_dict_merge_other)

lemma log_call_ok:
  assumes "\<not> list_ex (\<lambda>k. k \<in> set [''self'', ''lvl'', ''evt'', ''msg'']) (map fst kws)"
  shows "\<exists>c w1. log_call dumps now w lvl evt msg kws =
           Inr (c, w1\<lparr>log_file := log_file w @ dumps (JDict (log_entry now w1 lvl c evt
               (if length msg > 100 then take 97 msg @ ''...'' else msg)
               (filter (\<lambda>kv. fst kv \<noteq> ''cid'') kws))) @ [LF]\<rparr>)
          \<and> log_file w1 = log_file w \<and> agent_id w1 = agent_id w \<and> session_id w1 = session_id w"
  using assms
  by (auto simp add: log_call_def Let_def next_correlation_id_def split: prod.splits)

text \<open>
  Claim C4. A call of \<^verbatim>\<open>log\<close> whose keywords do not name a positional parameter appends
  one line, the serialised entry, to the session file; the \<^verbatim>\<open>msg\<close> field of that entry
  is a string \<open>m\<close>: for a message longer than 100 characters \<open>m\<close> has exactly 100
  characters, the first 97 of the message followed by the three-character marker; a
  message of at most 100 characters is stored as it is.
\<close>

theorem log_message_truncated:
  assumes "\<not> list_ex (\<lambda>k. k \<in> set [''self'', ''lvl'', ''evt'', ''msg'']) (map fst kws)"
  shows "\<exists>c w1 m.
      log_call dumps now w lvl evt msg kws =
        Inr (c, w1\<lparr>log_file := log_file w @ dumps (JDict (log_entry now w1 lvl c evt m
               (filter (\<lambda>kv. fst kv \<noteq> ''cid'') kws))) @ [LF]\<rparr>)
    \<and> dict_get (log_entry now w1 lvl c evt m (filter (\<lambda>kv. fst kv \<noteq> ''cid'') kws))
          ''msg'' JNull = JStr m
    \<and> (100 < length msg \<longrightarrow> length m = 100 \<and> take 97 m = take 97 msg \<and> drop 97 m = ''...'')
    \<and> (length msg \<le> 100 \<longrightarrow> m = msg)"
proof -
  let ?m = "if length msg > 100 then take 97 msg @ ''...'' else msg"
  let ?kw = "filter (\<lambda>kv. fst kv \<noteq> ''cid'') kws"
  from log_call_ok [OF assms, of dumps now w lvl evt msg]
  obtain c w1 where r: "log_call dumps now w lvl evt msg kws =
        Inr (c, w1\<lparr>log_file := log_file w @ dumps (JDict (log_entry now w1 lvl c evt ?m ?kw)) @ [LF]\<rparr>)"
    by blast
  from assms have "''msg'' \<notin> fst ` set ?kw"
    by (auto simp: list_ex_iff)
  then have f: "dict_get (log_entry now w1 lvl c evt ?m ?kw) ''msg'' JNull = JStr ?m"
    by (rule log_entry_msg)
  have t: "100 < length msg \<longrightarrow> length ?m = 100 \<and> take 97 ?m = take 97 msg \<and> drop 97 ?m = ''...''"
    by simp
  have v: "length msg \<le> 100 \<longrightarrow> ?m = msg"
    by simp
  from r f t v show ?thesis by blast
qed

theorem log_message_truncated_witness:
  "\<not> list_ex (\<lambda>k. k \<in> set [''self'', ''lvl'', ''evt'', ''msg''])
       (map fst [(''tool_name'', JStr ''grep'')])
   \<and> (\<exists>c w1 m.
      log_call (\<lambda>j. ''{}'') ''t0'' (init_logger ''s1'' ''orch:default'' []) ''debug''
          ''hook.pre_tool'' (replicate 101 CHR ''a'') [(''tool_name'', JStr ''grep'')] =
        Inr (c, w1\<lparr>log_file := log_file (init_logger ''s1'' ''orch:default'' []) @
               (\<lambda>j. ''{}'') (JDict (log_entry ''t0'' w1 ''debug'' c ''hook.pre_tool'' m
                 (filter (\<lambda>kv. fst kv \<noteq> ''cid'') [(''tool_name'', JStr ''grep'')]))) @ [LF]\<rparr>)
    \<and> length m = 100 \<and> take 97 m = replicate 97 CHR ''a'' \<and> drop 97 m = ''...'')"
proof -
  have h: "\<not> list_ex (\<lambda>k. k \<in> set [''self'', ''lvl'', ''evt'', ''msg''])
       (map fst [(''tool_name'', JStr ''grep'')])"
    by simp
  from log_message_truncated [OF h, of "\<lambda>j. ''{}''" "''t0''" "init_logger ''s1'' ''orch:default'' []"
      "''debug''" "''hook.pre_tool''" "replicate 101 CHR ''a''"]
  show ?thesis using h by auto
qed

subsection \<open>Correlation ids\<close>

lemma digit_cases: "d < 10 \<Longrightarrow> d \<in> {0, 1, 2, 3, 4, 5, 6, 7, 8, 9::nat}"
  by auto

lemma digit_val_nth: "d < 10 \<Longrightarrow> digit_val (''0123456789'' ! d) = d"
  by (drule digit_cases) (auto simp: digit_val_def)

lemma digit_not_underscore: "d < 10 \<Longrightarrow> ''0123456789'' ! d \<noteq> CHR ''_''"
  by (drule digit_cases) auto

lemma read_dec_snoc: "read_dec (s @ [c]) = 10 * read_dec s + digit_val c"
  by (simp add: read_dec_def)

lemma read_dec_dec: "read_dec (dec n) = n"
proof (induction n rule: dec.induct)
  case (1 n)
  show ?case
  proof (cases "n < 10")
    case True
    then show ?thesis
      by (subst dec.simps) (simp add: read_dec_def digit_val_nth)
  next
    case False
    with 1 have "read_dec (dec (n div 10)) = n div 10" by simp
    with False show ?thesis
      by (subst dec.simps) (simp add: read_dec_snoc digit_val_nth)
  qed
qed

lemma dec_no_underscore: "CHR ''_'' \<notin> set (dec n)"
proof (induction n rule: dec.induct)
  case (1 n)
  show ?case
  proof (cases "n < 10")
    case True
    then show ?thesis
      using digit_not_underscore [of n] by (subst dec.simps) auto
  next
    case False
    with 1 have "CHR ''_'' \<notin> set (dec (n div 10))" by simp
    with False show ?thesis
      using digit_not_underscore [of "n mod 10"] by (subst dec.simps) auto
  qed
qed

lemma dec_nonempty: "dec n \<noteq> []"
  by (subst dec.simps) simp

lemma read_dec_zeros: "read_dec (replicate k CHR ''0'' @ s) = read_dec s"
proof -
  have "foldl (\<lambda>a c. 10 * a + digit_val c) 0 (replicate k CHR ''0'') = 0"
    by (induction k) (simp_all add: digit_val_def)
  then show ?thesis by (simp add: read_dec_def)
qed

lemma read_dec_format: "0 \<le> i \<Longrightarrow> read_dec (format_03d i) = nat i"
  by (simp add: format_03d_def zfill_def read_dec_zeros read_dec_dec)

lemma format_no_underscore: "0 \<le> i \<Longrightarrow> CHR ''_'' \<notin> set (format_03d i)"
  by (auto simp: format_03d_def zfill_def dec_no_underscore)

lemma suffix_of_id: "CHR ''_'' \<notin> set ds \<Longrightarrow> suffix_of (p @ ''_'' @ ds) = ds"
proof -
  assume a: "CHR ''_'' \<notin> set ds"
  have "takeWhile (\<lambda>c. c \<noteq> CHR ''_'') (rev ds @ CHR ''_'' # rev p) = rev ds"
    using a by (auto simp: takeWhile_tail)
  then show ?thesis by (simp add: suffix_of_def)
qed

lemma length_format: "0 \<le> i \<Longrightarrow> length (format_03d i) = max 3 (length (dec (nat i)))"
  by (auto simp: format_03d_def zfill_def)

lemma log_call_auto:
  assumes "\<not> list_ex (\<lambda>k. k \<in> set [''self'', ''lvl'', ''evt'', ''msg'', ''cid'']) (map fst kws)"
  shows "\<exists>fl. log_call dumps now w lvl evt msg kws =
           Inr (JStr (''corr_'' @ session_id w @ ''_'' @ format_03d (seq w + 1)),
                w\<lparr>seq := seq w + 1, log_file := fl\<rparr>)"
proof -
  from assms have "map_of kws ''cid'' = None"
    by (auto simp: list_ex_iff map_of_eq_None_iff)
  then have "dict_get kws ''cid'' JNull = JNull"
    by (simp add: dict_get_def)
  with assms show ?thesis
    by (auto simp: log_call_def Let_def next_correlation_id_def list_ex_iff)
qed

lemma log_many_auto:
  assumes "\<forall>c \<in> set calls. \<not> list_ex (\<lambda>k. k \<in> set [''self'', ''lvl'', ''evt'', ''msg'', ''cid''])
              (map fst (snd (snd (snd (snd c)))))"
  shows "\<exists>fl. log_many dumps w calls =
           Inr (map (\<lambda>i. JStr (''corr_'' @ session_id w @ ''_'' @ format_03d (seq w + 1 + int i)))
                  [0..<length calls],
                w\<lparr>seq := seq w + int (length calls), log_file := fl\<rparr>)"
  using assms
proof (induction calls arbitrary: w)
  case Nil
  have "w = w\<lparr>seq := seq w, log_file := log_file w\<rparr>" by simp
  then show ?case by (auto intro: exI [of _ "log_file w"])
next
  case (Cons c calls)
  obtain now lvl evt msg kws where c: "c = (now, lvl, evt, msg, kws)"
    by (cases c) auto
  with Cons.prems have "\<not> list_ex (\<lambda>k. k \<in> set [''self'', ''lvl'', ''evt'', ''msg'', ''cid'']) (map fst kws)"
    by simp
  from log_call_auto [OF this, of dumps now w lvl evt msg]
  obtain fl where r1: "log_call dumps now w lvl evt msg kws =
           Inr (JStr (''corr_'' @ session_id w @ ''_'' @ format_03d (seq w + 1)),
                w\<lparr>seq := seq w + 1, log_file := fl\<rparr>)"
    by blast
  let ?w1 = "w\<lparr>seq := seq w + 1, log_file := fl\<rparr>"
  from Cons.prems have "\<forall>c \<in> set calls. \<not> list_ex (\<lambda>k. k \<in> set [''self'', ''lvl'', ''evt'', ''msg'', ''cid''])
              (map fst (snd (snd (snd (snd c)))))"
    by simp
  from Cons.IH [OF this, of ?w1]
  obtain fl2 where r2: "log_many dumps ?w1 calls =
           Inr (map (\<lambda>i. JStr (''corr_'' @ session_id ?w1 @ ''_'' @ format_03d (seq ?w1 + 1 + int i)))
                  [0..<length calls],
                ?w1\<lparr>seq := seq ?w1 + int (length calls), log_file := fl2\<rparr>)"
    by blast
  have r3: "[0..<length (c # calls)] = 0 # map Suc [0..<length calls]"
    by (simp add: upt_conv_Cons map_Suc_upt del: upt_Suc)
  have r4: "log_many dumps w ((now, lvl, evt, msg, kws) # calls) =
      Inr (JStr (''corr_'' @ session_id w @ ''_'' @ format_03d (seq w + 1)) #
           map (\<lambda>i. JStr (''corr_'' @ session_id ?w1 @ ''_'' @ format_03d (seq ?w1 + 1 + int i)))
                  [0..<length calls],
           ?w1\<lparr>seq := seq ?w1 + int (length calls), log_file := fl2\<rparr>)"
    by (simp only: log_many.simps r1 r2 sum.case prod.case)
  show ?case
    unfolding c r4 r3 [unfolded c]
    by (rule exI [of _ fl2]) (simp add: o_def add.commute add.left_commute)
qed

lemma length_dec_upper: "0 < k \<Longrightarrow> n < 10 ^ k \<Longrightarrow> length (dec n) \<le> k"
proof (induction k arbitrary: n)
  case 0
  then show ?case by simp
next
  case (Suc k)
  show ?case
  proof (cases "n < 10")
    case True
    then show ?thesis by (subst dec.simps) simp
  next
    case False
    with Suc.prems have k: "0 < k" by (cases k) auto
    from Suc.prems have "n div 10 < 10 ^ k"
      by (simp add: less_mult_imp_div_less mult.commute)
    from Suc.IH [OF k this] False show ?thesis
      by (subst dec.simps) simp
  qed
qed

lemma length_dec_lower: "10 ^ k \<le> n \<Longrightarrow> k < length (dec n)"
proof (induction k arbitrary: n)
  case 0
  then show ?case using dec_nonempty [of n] by (cases "dec n") auto
next
  case (Suc k)
  then have n: "\<not> n < 10"
    by (metis le_less_trans not_less one_le_numeral power_Suc power_increasing power_one_right le_add1 plus_1_eq_Suc)
  from Suc.prems have "10 ^ k \<le> n div 10"
    by (simp add: less_eq_div_iff_mult_less_eq mult.commute)
  from Suc.IH [OF this] n show ?case
    by (subst dec.simps) simp
qed

text \<open>
  Claim C5. On a new writer, a sequence of \<^verbatim>\<open>log\<close> calls without a \<^verbatim>\<open>cid\<close> keyword
  returns the ids \<^verbatim>\<open>corr_{session_id}_{seq}\<close> with \<open>seq\<close> counting from 1: the text after
  the last underscore is the decimal numeral of \<open>seq\<close> padded with zeros to three
  digits (no padding from 1000 on), its value is \<open>seq\<close>, and so the numeric suffixes
  of successive ids are strictly increasing, hence pairwise different.
\<close>

theorem correlation_ids_sequential:
  assumes "\<forall>c \<in> set calls.
             \<not> list_ex (\<lambda>k. k \<in> set [''self'', ''lvl'', ''evt'', ''msg'', ''cid''])
                 (map fst (snd (snd (snd (snd c)))))"
  shows "\<exists>ids w'.
      log_many dumps (init_logger sid aid existing) calls = Inr (map JStr ids, w')
    \<and> length ids = length calls
    \<and> seq w' = int (length calls)
    \<and> (\<forall>i < length calls.
          ids ! i = ''corr_'' @ sid @ ''_'' @ format_03d (int (i + 1))
        \<and> suffix_of (ids ! i) = replicate (3 - length (dec (i + 1))) CHR ''0'' @ dec (i + 1)
        \<and> (i + 1 < 1000 \<longrightarrow> length (suffix_of (ids ! i)) = 3)
        \<and> (1000 \<le> i + 1 \<longrightarrow> suffix_of (ids ! i) = dec (i + 1))
        \<and> read_dec (suffix_of (ids ! i)) = i + 1)
    \<and> (\<forall>i j. i < j \<and> j < length calls \<longrightarrow>
          read_dec (suffix_of (ids ! i)) < read_dec (suffix_of (ids ! j)))"
proof -
  let ?w = "init_logger sid aid existing"
  let ?ids = "map (\<lambda>i. ''corr_'' @ sid @ ''_'' @ format_03d (int (i + 1))) [0..<length calls]"
  from log_many_auto [OF assms, of dumps ?w]
  obtain fl where "log_many dumps ?w calls =
           Inr (map (\<lambda>i. JStr (''corr_'' @ session_id ?w @ ''_'' @ format_03d (seq ?w + 1 + int i)))
                  [0..<length calls],
                ?w\<lparr>seq := seq ?w + int (length calls), log_file := fl\<rparr>)"
    by blast
  then have run: "log_many dumps ?w calls =
      Inr (map JStr ?ids, ?w\<lparr>seq := int (length calls), log_file := fl\<rparr>)"
    by (simp add: init_logger_def o_def add.commute)
  have suf: "suffix_of (''corr_'' @ sid @ ''_'' @ format_03d (int n)) = format_03d (int n)" for n
    using suffix_of_id [of "format_03d (int n)" "''corr_'' @ sid"] format_no_underscore [of "int n"]
    by simp
  have fmt: "format_03d (int n) = replicate (3 - length (dec n)) CHR ''0'' @ dec n" for n
    by (simp add: format_03d_def zfill_def)
  have short: "n < 1000 \<Longrightarrow> length (format_03d (int n)) = 3" for n
    using length_dec_upper [of 3 n] by (simp add: fmt)
  have long: "1000 \<le> n \<Longrightarrow> format_03d (int n) = dec n" for n
    using length_dec_lower [of 3 n] by (simp add: fmt)
  have val: "read_dec (format_03d (int n)) = n" for n
    using read_dec_format [of "int n"] by simp
  have each: "\<forall>i < length calls.
          ?ids ! i = ''corr_'' @ sid @ ''_'' @ format_03d (int (i + 1))
        \<and> suffix_of (?ids ! i) = replicate (3 - length (dec (i + 1))) CHR ''0'' @ dec (i + 1)
        \<and> (i + 1 < 1000 \<longrightarrow> length (suffix_of (?ids ! i)) = 3)
        \<and> (1000 \<le> i + 1 \<longrightarrow> suffix_of (?ids ! i) = dec (i + 1))
        \<and> read_dec (suffix_of (?ids ! i)) = i + 1"
  proof (intro allI impI)
    fix i assume i: "i < length calls"
    then have nth: "?ids ! i = ''corr_'' @ sid @ ''_'' @ format_03d (int (i + 1))"
      by simp
    show "?ids ! i = ''corr_'' @ sid @ ''_'' @ format_03d (int (i + 1))
        \<and> suffix_of (?ids ! i) = replicate (3 - length (dec (i + 1))) CHR ''0'' @ dec (i + 1)
        \<and> (i + 1 < 1000 \<longrightarrow> length (suffix_of (?ids ! i)) = 3)
        \<and> (1000 \<le> i + 1 \<longrightarrow> suffix_of (?ids ! i) = dec (i + 1))
        \<and> read_dec (suffix_of (?ids ! i)) = i + 1"
      unfolding nth suf
      using fmt [of "i + 1"] short [of "i + 1"] long [of "i + 1"] val [of "i + 1"]
      by simp
  qed
  have vi: "read_dec (suffix_of (?ids ! i)) = i + 1" if "i < length calls" for i
    using each that by blast
  have incr: "\<forall>i j. i < j \<and> j < length calls \<longrightarrow>
          read_dec (suffix_of (?ids ! i)) < read_dec (suffix_of (?ids ! j))"
  proof (intro allI impI)
    fix i j assume ij: "i < j \<and> j < length calls"
    then have a: "i < length calls" and b: "j < length calls" by simp_all
    show "read_dec (suffix_of (?ids ! i)) < read_dec (suffix_of (?ids ! j))"
      unfolding vi [OF a] vi [OF b] using ij by simp
  qed
  have len: "length ?ids = length calls" by simp
  have sq: "seq (?w\<lparr>seq := int (length calls), log_file := fl\<rparr>) = int (length calls)" by simp
  from run len sq each incr show ?thesis by blast
qed

theorem correlation_ids_sequential_witness:
  "(\<exists>ids w'.
      log_many (\<lambda>j. ''{}'') (init_logger ''s1'' ''orch:default'' [])
        [(''t0'', ''info'', ''task.started'', ''build'', []),
         (''t1'', ''debug'', ''hook.pre_tool'', ''Executing grep'', [(''tool_name'', JStr ''grep'')])]
        = Inr (map JStr ids, w')
    \<and> length ids = 2
    \<and> seq w' = 2
    \<and> ids ! 0 = ''corr_s1_001''
    \<and> ids ! 1 = ''corr_s1_002''
    \<and> read_dec (suffix_of (ids ! 0)) < read_dec (suffix_of (ids ! 1)))"
proof -
  let ?calls = "[(''t0'', ''info'', ''task.started'', ''build'', []),
         (''t1'', ''debug'', ''hook.pre_tool'', ''Executing grep'', [(''tool_name'', JStr ''grep'')])]"
  have h: "\<forall>c \<in> set ?calls.
             \<not> list_ex (\<lambda>k. k \<in> set [''self'', ''lvl'', ''evt'', ''msg'', ''cid''])
                 (map fst (snd (snd (snd (snd c)))))"
    by simp
  have f: "format_03d 1 = ''001''" "format_03d 2 = ''002''"
    by (simp_all add: format_03d_def zfill_def dec.simps eval_nat_numeral)
  from correlation_ids_sequential [OF h, of "\<lambda>j. ''{}''" "''s1''" "''orch:default''" "[]"]
  obtain ids w' where
    r: "log_many (\<lambda>j. ''{}'') (init_logger ''s1'' ''orch:default'' []) ?calls = Inr (map JStr ids, w')"
    and l: "length ids = length ?calls" and s: "seq w' = int (length ?calls)"
    and e: "\<forall>i < length ?calls. ids ! i = ''corr_'' @ ''s1'' @ ''_'' @ format_03d (int (i + 1))"
    and m: "\<forall>i j. i < j \<and> j < length ?calls \<longrightarrow>
          read_dec (suffix_of (ids ! i)) < read_dec (suffix_of (ids ! j))"
    by blast
  from e have e0: "ids ! 0 = ''corr_s1_001''" and e1: "ids ! 1 = ''corr_s1_002''"
    using f by simp_all
  from m have "read_dec (suffix_of (ids ! 0)) < read_dec (suffix_of (ids ! 1))"
    by simp
  with r l s e0 e1 show ?thesis
    by (intro exI [of _ ids] exI [of _ w']) simp
qed


section \<open>Properties of compaction\<close>

subsection \<open>The test on a line and the loop over the lines\<close>

lemma keep_entry_dict:
  "hashable (dict_get d ''evt'' (JStr [])) \<Longrightarrow>
   keep_entry (JDict d) =
     Inr (dict_get d ''evt'' (JStr []) \<in> JStr ` set preserve_events
          \<or> dict_get d ''lvl'' (JStr []) \<in> JStr ` {''error'', ''fatal'', ''warn''})"
  by (simp add: keep_entry_def Let_def)

lemma keep_entry_Inr:
  "keep_entry j = Inr b \<Longrightarrow>
   \<exists>d. j = JDict d \<and> hashable (dict_get d ''evt'' (JStr []))
     \<and> b = (dict_get d ''evt'' (JStr []) \<in> JStr ` set preserve_events
          \<or> dict_get d ''lvl'' (JStr []) \<in> JStr ` {''error'', ''fatal'', ''warn''})"
  by (cases j) (auto simp: keep_entry_def Let_def split: if_splits)

lemma scan_lines_Inr:
  "scan_lines loads ls acc = Inr kept \<Longrightarrow>
   kept = acc @ filter (\<lambda>l. \<exists>j. loads l = Some j \<and> keep_entry j = Inr True)
                  (filter (\<lambda>l. l \<noteq> []) (map strip ls))"
proof (induction ls arbitrary: acc)
  case Nil
  then show ?case by simp
next
  case (Cons raw rest)
  show ?case
  proof (cases "strip raw = []")
    case True
    with Cons show ?thesis by simp
  next
    case False
    show ?thesis
    proof (cases "loads (strip raw)")
      case None
      with False Cons show ?thesis by simp
    next
      case (Some j)
      with False Cons.prems obtain b where b: "keep_entry j = Inr b"
        by (cases "keep_entry j") (auto simp: Let_def)
      show ?thesis
      proof (cases b)
        case True
        with b Some False Cons.prems
        have "scan_lines loads rest (acc @ [strip raw]) = Inr kept" by (simp add: Let_def)
        from Cons.IH [OF this] b True Some False show ?thesis by simp
      next
        case f: False
        with b Some False Cons.prems
        have "scan_lines loads rest acc = Inr kept" by (simp add: Let_def)
        from Cons.IH [OF this] b f Some False show ?thesis by simp
      qed
    qed
  qed
qed

lemma scan_lines_total:
  assumes "\<forall>l \<in> set ls. strip l \<noteq> [] \<longrightarrow>
             (\<forall>j. loads (strip l) = Some j \<longrightarrow> (\<exists>b. keep_entry j = Inr b))"
  shows "\<exists>kept. scan_lines loads ls acc = Inr kept"
  using assms
proof (induction ls arbitrary: acc)
  case Nil
  then show ?case by simp
next
  case (Cons raw rest)
  then have ih: "\<exists>kept. scan_lines loads rest a = Inr kept" for a by simp
  show ?case
  proof (cases "strip raw = []")
    case True
    with ih show ?thesis by simp
  next
    case False
    show ?thesis
    proof (cases "loads (strip raw)")
      case None
      with False ih show ?thesis by simp
    next
      case (Some j)
      with False Cons.prems obtain b where "keep_entry j = Inr b" by auto
      with Some False ih show ?thesis by (simp add: Let_def)
    qed
  qed
qed

subsection \<open>strip\<close>

lemma is_space_LF [simp]: "is_space LF"
  by (simp add: is_space_def LF_def)

lemma is_space_CR [simp]: "is_space CR"
  by (simp add: is_space_def CR_def)

lemma LF_neq_CR [simp]: "LF \<noteq> CR" "CR \<noteq> LF"
  by (simp_all add: LF_def CR_def)

lemma set_strip: "set (strip s) \<subseteq> set s"
proof -
  have "set (strip s) = set (dropWhile is_space (rev (dropWhile is_space s)))"
    by (simp add: strip_def)
  also have "\<dots> \<subseteq> set (rev (dropWhile is_space s))"
    by (auto dest: set_dropWhileD)
  also have "\<dots> \<subseteq> set s"
    by (auto dest: set_dropWhileD)
  finally show ?thesis .
qed

lemma strip_self:
  assumes "s \<noteq> []" "\<not> is_space (hd s)" "\<not> is_space (last s)"
  shows "strip s = s"
proof -
  from assms have 1: "dropWhile is_space s = s"
    by (cases s) auto
  from assms have "rev s \<noteq> []" "\<not> is_space (hd (rev s))"
    by (simp_all add: hd_rev)
  then have "dropWhile is_space (rev s) = rev s"
    by (cases "rev s") auto
  with 1 show ?thesis by (simp add: strip_def)
qed

lemma strip_ends:
  assumes "strip s \<noteq> []"
  shows "\<not> is_space (hd (strip s))" "\<not> is_space (last (strip s))"
proof -
  define a where "a = dropWhile is_space s"
  define b where "b = dropWhile is_space (rev a)"
  have st: "strip s = rev b" by (simp add: strip_def a_def b_def)
  with assms have b: "b \<noteq> []" by simp
  have a: "a \<noteq> []"
  proof
    assume "a = []"
    then have "b = []" by (simp add: b_def)
    with b show False by contradiction
  qed
  from b have hb: "\<not> is_space (hd b)" unfolding b_def by (rule hd_dropWhile)
  from a have ha: "\<not> is_space (hd a)" unfolding a_def by (rule hd_dropWhile)
  show "\<not> is_space (last (strip s))"
    using hb b by (simp add: st last_rev)
  have "rev a = takeWhile is_space (rev a) @ b"
    by (simp add: b_def)
  then have "rev (rev a) = rev (takeWhile is_space (rev a) @ b)"
    by (rule arg_cong)
  then have "a = rev b @ rev (takeWhile is_space (rev a))"
    by (simp only: rev_rev_ident rev_append)
  then have "hd a = hd (rev b @ rev (takeWhile is_space (rev a)))"
    by (rule arg_cong)
  with b have "hd a = hd (rev b)" by simp
  with ha show "\<not> is_space (hd (strip s))" by (simp add: st)
qed

lemma strip_idem: "strip (strip s) = strip s"
proof (cases "strip s = []")
  case True
  have "strip [] = []" by (simp add: strip_def)
  with True show ?thesis by simp
next
  case False
  then show ?thesis using strip_ends [of s] by (intro strip_self) auto
qed

lemma strip_snoc_space:
  assumes "is_space c"
  shows "strip (s @ [c]) = strip s"
proof (cases "dropWhile is_space s = []")
  case True
  then have "\<forall>x \<in> set s. is_space x" by simp
  with assms have d: "dropWhile is_space (s @ [c]) = []" by simp
  show ?thesis unfolding strip_def d True by simp
next
  case False
  then obtain x where "x \<in> set s" "\<not> is_space x" by (auto simp: dropWhile_eq_Nil_conv)
  then have "dropWhile is_space (s @ [c]) = dropWhile is_space s @ [c]"
    by (simp add: dropWhile_append1)
  with assms show ?thesis by (simp add: strip_def)
qed

subsection \<open>Reading lines\<close>

lemma readlines_line:
  "LF \<notin> set l \<Longrightarrow> CR \<notin> set l \<Longrightarrow>
   readlines cur (l @ LF # rest) = (cur @ l @ [LF]) # readlines [] rest"
  by (induction l arbitrary: cur) auto

lemma readlines_joined:
  "\<forall>l \<in> set ls. LF \<notin> set l \<and> CR \<notin> set l \<Longrightarrow>
   readlines [] (concat (map (\<lambda>l. l @ [LF]) ls)) = map (\<lambda>l. l @ [LF]) ls"
  by (induction ls) (simp_all add: readlines_line)

lemma join_lines_concat: "ls \<noteq> [] \<Longrightarrow> join_lines ls @ [LF] = concat (map (\<lambda>l. l @ [LF]) ls)"
  by (induction ls rule: join_lines.induct) auto

lemma readlines_shape:
  "l \<in> set (readlines cur cs) \<Longrightarrow> LF \<notin> set cur \<Longrightarrow> CR \<notin> set cur \<Longrightarrow>
   \<exists>b. (l = b @ [LF] \<or> l = b) \<and> LF \<notin> set b \<and> CR \<notin> set b"
proof (induction cur cs rule: readlines.induct)
  case (1 cur)
  then show ?case by (auto split: if_splits)
next
  case (2 cur c cs)
  show ?case
  proof (cases "c = LF")
    case True
    with 2 show ?thesis by auto
  next
    case nl: False
    show ?thesis
    proof (cases "c = CR")
      case True
      with nl 2 show ?thesis by (cases cs) (auto split: if_splits)
    next
      case False
      with nl 2 show ?thesis by auto
    qed
  qed
qed

lemma strip_readlines_clean:
  assumes "l \<in> set (readlines [] cs)"
  shows "LF \<notin> set (strip l) \<and> CR \<notin> set (strip l)"
proof -
  from readlines_shape [OF assms] obtain b where
    b: "l = b @ [LF] \<or> l = b" "LF \<notin> set b" "CR \<notin> set b" by auto
  then have "strip l = strip b" by (auto simp: strip_snoc_space)
  with b set_strip [of b] show ?thesis by auto
qed

subsection \<open>The loops against the specification\<close>







lemmas eval_defs = sample_env_def sample_loads_def LF_def CR_def
      path_of_def st_size_def endswith_def strip_def is_space_def keep_entry_def
      dict_get_def preserve_events_def Let_def eligible_def record_lines_def spec_records_def
      spec_preserved_def line_boundary_def


subsection \<open>Dry run and a second pass\<close>

lemma compact_loop_dry:
  "compact_loop e loads cutoff True todo seen c s = (out, r) \<Longrightarrow>
   out = seen @ todo \<and> (r = Inr (c, s) \<or> (\<exists>err. r = Inl err))"
proof (induction todo arbitrary: seen)
  case Nil
  then show ?case by auto
next
  case (Cons f todo)
  show ?case
  proof (cases "compact_loop e loads cutoff True (f # todo) seen c s =
                compact_loop e loads cutoff True todo (seen @ [f]) c s")
    case True
    with Cons.prems have "compact_loop e loads cutoff True todo (seen @ [f]) c s = (out, r)"
      by simp
    from Cons.IH [OF this] show ?thesis by simp
  next
    case False
    then obtain err where "compact_loop e loads cutoff True (f # todo) seen c s = (seen @ f # todo, Inl err)"
      by (auto simp: Let_def split: if_splits sum.splits)
    with Cons.prems show ?thesis by auto
  qed
qed

lemma scan_lines_all_kept:
  "\<forall>l \<in> set ls. strip l \<noteq> [] \<and> (\<exists>j. loads (strip l) = Some j \<and> keep_entry j = Inr True) \<Longrightarrow>
   scan_lines loads ls acc = Inr (acc @ map strip ls)"
  by (induction ls arbitrary: acc) (auto simp: Let_def)

lemma rescan_written:
  assumes sc: "scan_lines loads (readlines [] text) [] = Inr kept" and ne: "kept \<noteq> []"
  shows "scan_lines loads (readlines [] (join_lines kept @ [LF])) [] = Inr kept"
proof -
  from scan_lines_Inr [OF sc]
  have k: "kept = filter (\<lambda>l. \<exists>j. loads l = Some j \<and> keep_entry j = Inr True)
                  (filter (\<lambda>l. l \<noteq> []) (map strip (readlines [] text)))"
    by simp
  have each: "l \<noteq> [] \<and> strip l = l \<and> LF \<notin> set l \<and> CR \<notin> set l
      \<and> (\<exists>j. loads l = Some j \<and> keep_entry j = Inr True)" if "l \<in> set kept" for l
  proof -
    from that k obtain raw where raw: "raw \<in> set (readlines [] text)" "l = strip raw"
      and l: "l \<noteq> []" "\<exists>j. loads l = Some j \<and> keep_entry j = Inr True"
      by auto
    from strip_readlines_clean [OF raw(1)] raw(2) l strip_idem [of raw]
    show ?thesis by simp
  qed
  have clean: "\<forall>l \<in> set kept. LF \<notin> set l \<and> CR \<notin> set l"
    using each by blast
  have rd: "readlines [] (join_lines kept @ [LF]) = map (\<lambda>l. l @ [LF]) kept"
    using readlines_joined [OF clean] join_lines_concat [OF ne] by simp
  have st: "strip (l @ [LF]) = l" if "l \<in> set kept" for l
    using each [OF that] by (simp add: strip_snoc_space)
  have "\<forall>r \<in> set (map (\<lambda>l. l @ [LF]) kept).
          strip r \<noteq> [] \<and> (\<exists>j. loads (strip r) = Some j \<and> keep_entry j = Inr True)"
    using each st by auto
  from scan_lines_all_kept [OF this, of "[]"]
  have "scan_lines loads (map (\<lambda>l. l @ [LF]) kept) [] = Inr (map strip (map (\<lambda>l. l @ [LF]) kept))"
    by simp
  also have "map strip (map (\<lambda>l. l @ [LF]) kept) = kept"
    using st by (simp add: map_idI)
  finally show ?thesis by (simp add: rd)
qed

lemma compact_loop_Cons_cases:
  obtains
    (skipped) "compact_loop e loads cutoff dry (f # todo) seen c s =
            compact_loop e loads cutoff dry todo (seen @ [f]) c s"
  | (raised) err where "compact_loop e loads cutoff dry (f # todo) seen c s = (seen @ f # todo, Inl err)"
  | (rewritten) kept where "scan_lines loads (readlines [] (content f)) [] = Inr kept" "kept \<noteq> []"
      "compact_loop e loads cutoff dry (f # todo) seen c s =
       compact_loop e loads cutoff dry todo
         (seen @ [f\<lparr>mtime := write_time e (path_of f), content := join_lines kept @ [LF]\<rparr>])
         (c + 1)
         (s + (st_size f - st_size (f\<lparr>mtime := write_time e (path_of f),
                                        content := join_lines kept @ [LF]\<rparr>)))"
proof (cases "cutoff \<le> date_dir f \<or> endswith (stem f) ''_compacted'' \<or> \<not> can_read e (path_of f)")
  case True
  then have "compact_loop e loads cutoff dry (f # todo) seen c s =
            compact_loop e loads cutoff dry todo (seen @ [f]) c s"
    by (auto simp: Let_def)
  then show ?thesis by (rule skipped)
next
  case False
  show ?thesis
  proof (cases "scan_lines loads (readlines [] (content f)) []")
    case (Inl err)
    with False have "compact_loop e loads cutoff dry (f # todo) seen c s = (seen @ f # todo, Inl err)"
      by (simp add: Let_def)
    then show ?thesis by (rule raised)
  next
    case (Inr kept)
    show ?thesis
    proof (cases "\<not> dry \<and> kept \<noteq> [] \<and> can_write e (path_of f)")
      case True
      with False Inr have "compact_loop e loads cutoff dry (f # todo) seen c s =
       compact_loop e loads cutoff dry todo
         (seen @ [f\<lparr>mtime := write_time e (path_of f), content := join_lines kept @ [LF]\<rparr>])
         (c + 1)
         (s + (st_size f - st_size (f\<lparr>mtime := write_time e (path_of f),
                                        content := join_lines kept @ [LF]\<rparr>)))"
        by (simp add: Let_def)
      with Inr True show ?thesis by (intro rewritten [of kept]) simp_all
    next
      case w: False
      with False Inr have "compact_loop e loads cutoff dry (f # todo) seen c s =
            compact_loop e loads cutoff dry todo (seen @ [f]) c s"
        by (auto simp: Let_def)
      then show ?thesis by (rule skipped)
    qed
  qed
qed

lemma compact_loop_steps:
  "compact_loop e loads cutoff dry todo seen c s = (out, r) \<Longrightarrow>
   \<exists>out'. out = seen @ out'
     \<and> list_all2 (\<lambda>f g. g = f \<or>
          (\<exists>kept. scan_lines loads (readlines [] (content f)) [] = Inr kept \<and> kept \<noteq> []
             \<and> g = f\<lparr>mtime := write_time e (path_of f), content := join_lines kept @ [LF]\<rparr>))
        todo out'
     \<and> (\<forall>c' s'. r = Inr (c', s') \<longrightarrow>
           s' = s + (sum_list (map st_size todo) - sum_list (map st_size out')))"
proof (induction todo arbitrary: seen c s)
  case Nil
  then show ?case by auto
next
  case (Cons f todo)
  let ?P = "\<lambda>f g. g = f \<or>
          (\<exists>kept. scan_lines loads (readlines [] (content f)) [] = Inr kept \<and> kept \<noteq> []
             \<and> g = f\<lparr>mtime := write_time e (path_of f), content := join_lines kept @ [LF]\<rparr>)"
  show ?case
  proof (cases rule: compact_loop_Cons_cases [of e loads cutoff dry f todo seen c s])
    case skipped
    from Cons.prems [unfolded skipped]
    have "compact_loop e loads cutoff dry todo (seen @ [f]) c s = (out, r)" .
    from Cons.IH [OF this] obtain out' where o: "out = (seen @ [f]) @ out'"
      "list_all2 ?P todo out'"
      "\<forall>c' s'. r = Inr (c', s') \<longrightarrow>
           s' = s + (sum_list (map st_size todo) - sum_list (map st_size out'))"
      by blast
    show ?thesis
      by (rule exI [of _ "f # out'"]) (use o in simp)
  next
    case (raised err)
    from Cons.prems [unfolded raised]
    have "out = seen @ f # todo" "r = Inl err" by simp_all
    then show ?thesis
      by (intro exI [of _ "f # todo"]) (simp add: list_all2_refl)
  next
    case (rewritten kept)
    let ?g = "f\<lparr>mtime := write_time e (path_of f), content := join_lines kept @ [LF]\<rparr>"
    from Cons.prems [unfolded rewritten(3)]
    have "compact_loop e loads cutoff dry todo (seen @ [?g]) (c + 1)
         (s + (st_size f - st_size ?g)) = (out, r)" .
    from Cons.IH [OF this] obtain out' where o: "out = (seen @ [?g]) @ out'"
      "list_all2 ?P todo out'"
      "\<forall>c' s'. r = Inr (c', s') \<longrightarrow>
           s' = s + (st_size f - st_size ?g) + (sum_list (map st_size todo) - sum_list (map st_size out'))"
      by blast
    show ?thesis
      by (rule exI [of _ "?g # out'"]) (use o rewritten in auto)
  qed
qed

lemma compact_old_sessions_Some:
  assumes "compact_old_sessions e loads (Some st) cutoff dry = (Some st', r)"
  shows "\<exists>r'. compact_loop e loads cutoff dry (files st) [] 0 0 = (files st', r')
           \<and> dirs st' = dirs st
           \<and> (\<forall>res. r = Inr res \<longrightarrow> r' = Inr (compacted_files res, saved_bytes res))"
proof -
  obtain fs r' where l: "compact_loop e loads cutoff dry (files st) [] 0 0 = (fs, r')"
    by (cases "compact_loop e loads cutoff dry (files st) [] 0 0") auto
  show ?thesis
  proof (cases r')
    case (Inl err)
    with l assms show ?thesis
      by (auto simp: compact_old_sessions_def)
  next
    case (Inr cs)
    with l assms show ?thesis
      by (cases cs) (auto simp: compact_old_sessions_def)
  qed
qed

text \<open>
  Claim C6. Let a pass without dry run take the store \<open>st\<close> to \<open>st1\<close>, and a second pass,
  with any threshold and any behaviour of the file system, take \<open>st1\<close> to \<open>st2\<close>. Every
  file that the first pass has changed, and every file that holds the text a rewrite
  writes, has the same text after the second pass, so its size before minus its size
  after, which is what the pass adds to the saved bytes for it, is zero; the saved bytes
  that the second pass reports are the sum of these differences over the files.
\<close>

theorem compaction_idempotent:
  assumes p1: "compact_old_sessions e1 loads (Some st) cutoff1 False = (Some st1, r1)"
      and p2: "compact_old_sessions e2 loads (Some st1) cutoff2 False = (Some st2, r2)"
  shows "length (files st1) = length (files st) \<and> length (files st2) = length (files st)
     \<and> (\<forall>i < length (files st).
           (files st1 ! i \<noteq> files st ! i
            \<or> (\<exists>old kept. scan_lines loads (readlines [] old) [] = Inr kept \<and> kept \<noteq> []
                  \<and> content (files st1 ! i) = join_lines kept @ [LF]))
           \<longrightarrow> content (files st2 ! i) = content (files st1 ! i)
               \<and> st_size (files st1 ! i) - st_size (files st2 ! i) = 0)
     \<and> (\<forall>res. r2 = Inr res \<longrightarrow>
           saved_bytes res = sum_list (map st_size (files st1)) - sum_list (map st_size (files st2)))"
proof -
  let ?P = "\<lambda>e f g. g = f \<or>
          (\<exists>kept. scan_lines loads (readlines [] (content f)) [] = Inr kept \<and> kept \<noteq> []
             \<and> g = f\<lparr>mtime := write_time e (path_of f), content := join_lines kept @ [LF]\<rparr>)"
  from compact_old_sessions_Some [OF p1] obtain q1 where
    l1: "compact_loop e1 loads cutoff1 False (files st) [] 0 0 = (files st1, q1)" by blast
  from compact_old_sessions_Some [OF p2] obtain q2 where
    l2: "compact_loop e2 loads cutoff2 False (files st1) [] 0 0 = (files st2, q2)"
    and q2: "\<forall>res. r2 = Inr res \<longrightarrow> q2 = Inr (compacted_files res, saved_bytes res)" by blast
  from compact_loop_steps [OF l1] have s1: "list_all2 (?P e1) (files st) (files st1)"
    by simp
  from compact_loop_steps [OF l2] have s2: "list_all2 (?P e2) (files st1) (files st2)"
    and acc: "\<forall>c' s'. q2 = Inr (c', s') \<longrightarrow>
           s' = 0 + (sum_list (map st_size (files st1)) - sum_list (map st_size (files st2)))"
    by simp_all
  from s1 have n1: "length (files st1) = length (files st)"
    by (simp add: list_all2_lengthD)
  from s2 n1 have n2: "length (files st2) = length (files st)"
    by (simp add: list_all2_lengthD)
  have files: "\<forall>i < length (files st).
           (files st1 ! i \<noteq> files st ! i
            \<or> (\<exists>old kept. scan_lines loads (readlines [] old) [] = Inr kept \<and> kept \<noteq> []
                  \<and> content (files st1 ! i) = join_lines kept @ [LF]))
           \<longrightarrow> content (files st2 ! i) = content (files st1 ! i)
               \<and> st_size (files st1 ! i) - st_size (files st2 ! i) = 0"
  proof (intro allI impI)
    fix i
    assume i: "i < length (files st)"
      and h: "files st1 ! i \<noteq> files st ! i
            \<or> (\<exists>old kept. scan_lines loads (readlines [] old) [] = Inr kept \<and> kept \<noteq> []
                  \<and> content (files st1 ! i) = join_lines kept @ [LF])"
    from i n1 have i1: "i < length (files st1)" by simp
    from list_all2_nthD [OF s1 i] have a: "?P e1 (files st ! i) (files st1 ! i)"
      by simp
    from list_all2_nthD [OF s2 i1] have b: "?P e2 (files st1 ! i) (files st2 ! i)"
      by simp
    from h a obtain old kept where k: "scan_lines loads (readlines [] old) [] = Inr kept"
      "kept \<noteq> []" "content (files st1 ! i) = join_lines kept @ [LF]"
      by auto
    from rescan_written [OF k(1) k(2)] k(3)
    have again: "scan_lines loads (readlines [] (content (files st1 ! i))) [] = Inr kept"
      by simp
    from b again k(3) have "content (files st2 ! i) = content (files st1 ! i)"
      by auto
    then show "content (files st2 ! i) = content (files st1 ! i)
               \<and> st_size (files st1 ! i) - st_size (files st2 ! i) = 0"
      by (simp add: st_size_def)
  qed
  have bytes: "\<forall>res. r2 = Inr res \<longrightarrow>
           saved_bytes res = sum_list (map st_size (files st1)) - sum_list (map st_size (files st2))"
    using q2 acc by auto
  from n1 n2 files bytes show ?thesis by blast
qed

theorem compaction_idempotent_witness:
  \<open>compact_old_sessions sample_env sample_loads
       (Some \<lparr>files = [\<lparr>date_dir = ''2024-01-01'', stem = ''s1'', mtime = 5,
          content = ''{"lvl":"debug","evt":"hook.pre_tool"}'' @ [LF] @
                    ''{"lvl":"info","evt":"decision.made"}'' @ [LF]\<rparr>],
        dirs = [''2024-01-01'']\<rparr>) ''2024-06-01'' False
     = (Some \<lparr>files = [\<lparr>date_dir = ''2024-01-01'', stem = ''s1'', mtime = 1000,
          content = ''{"lvl":"info","evt":"decision.made"}'' @ [LF]\<rparr>],
        dirs = [''2024-01-01'']\<rparr>,
        Inr \<lparr>compacted_files = 1, saved_bytes = 38, co_dry_run = Some False\<rparr>)
   \<and> compact_old_sessions sample_env sample_loads
       (Some \<lparr>files = [\<lparr>date_dir = ''2024-01-01'', stem = ''s1'', mtime = 1000,
          content = ''{"lvl":"info","evt":"decision.made"}'' @ [LF]\<rparr>],
        dirs = [''2024-01-01'']\<rparr>) ''2024-06-01'' False
     = (Some \<lparr>files = [\<lparr>date_dir = ''2024-01-01'', stem = ''s1'', mtime = 1000,
          content = ''{"lvl":"info","evt":"decision.made"}'' @ [LF]\<rparr>],
        dirs = [''2024-01-01'']\<rparr>,
        Inr \<lparr>compacted_files = 1, saved_bytes = 0, co_dry_run = Some False\<rparr>)
   \<and> saved_bytes \<lparr>compacted_files = 1, saved_bytes = 0, co_dry_run = Some False\<rparr> =
       sum_list (map st_size [\<lparr>date_dir = ''2024-01-01'', stem = ''s1'', mtime = 1000,
          content = ''{"lvl":"info","evt":"decision.made"}'' @ [LF]\<rparr>])
       - sum_list (map st_size [\<lparr>date_dir = ''2024-01-01'', stem = ''s1'', mtime = 1000,
          content = ''{"lvl":"info","evt":"decision.made"}'' @ [LF]\<rparr>])\<close>
proof -
  let ?st = \<open>\<lparr>files = [\<lparr>date_dir = ''2024-01-01'', stem = ''s1'', mtime = 5,
        content = ''{"lvl":"debug","evt":"hook.pre_tool"}'' @ [LF] @
                  ''{"lvl":"info","evt":"decision.made"}'' @ [LF]\<rparr>],
      dirs = [''2024-01-01'']\<rparr>\<close>
  let ?st1 = \<open>\<lparr>files = [\<lparr>date_dir = ''2024-01-01'', stem = ''s1'', mtime = 1000,
        content = ''{"lvl":"info","evt":"decision.made"}'' @ [LF]\<rparr>],
      dirs = [''2024-01-01'']\<rparr>\<close>
  let ?r2 = "\<lparr>compacted_files = 1, saved_bytes = 0, co_dry_run = Some False\<rparr>"
  have p1: "compact_old_sessions sample_env sample_loads (Some ?st) ''2024-06-01'' False
      = (Some ?st1, Inr \<lparr>compacted_files = 1, saved_bytes = 38, co_dry_run = Some False\<rparr>)"
    by (simp add: compact_old_sessions_def eval_defs)
  have p2: "compact_old_sessions sample_env sample_loads (Some ?st1) ''2024-06-01'' False
      = (Some ?st1, Inr ?r2)"
    by (simp add: compact_old_sessions_def eval_defs)
  from compaction_idempotent [OF p1 p2]
  have "\<forall>res. Inr ?r2 = (Inr res :: pyerr + compact_result) \<longrightarrow>
           saved_bytes res = sum_list (map st_size (files ?st1)) - sum_list (map st_size (files ?st1))"
    by blast
  then have "saved_bytes ?r2 = sum_list (map st_size (files ?st1)) - sum_list (map st_size (files ?st1))"
    by blast
  with p1 p2 show ?thesis by simp
qed


section \<open>Properties of retention\<close>

lemmas plan_defs = cleanup_logs_plan_def cleanup_plan_def lib_age_stage_def lib_size_stage_def
  lib_count_stage_def cli_age_stage_def cli_size_stage_def cli_count_stage_def
  path_in_def path_of_def st_size_def py_int_def slice_to_def Let_def

lemma cleanup_logs_dry_run:
  "cleanup_logs e (Some st) cutoff_str retention_days max_size_mb max_files True =
     (Some st,
      Report \<lparr>deleted_files =
                 length (fst (cleanup_logs_plan (files st) cutoff_str retention_days max_size_mb max_files)),
               freed_bytes =
                 sum_list (map st_size
                   (fst (cleanup_logs_plan (files st) cutoff_str retention_days max_size_mb max_files))),
               cl_dry_run = True,
               cl_files =
                 map path_of
                   (fst (cleanup_logs_plan (files st) cutoff_str retention_days max_size_mb max_files)),
               cl_reasons =
                 snd (cleanup_logs_plan (files st) cutoff_str retention_days max_size_mb max_files)\<rparr>)"
  by (simp add: cleanup_logs_def split: prod.splits)


text \<open>
  Claim C7. The two retention functions do not select the same files. With a limit of
  1 MB, one file of 600000 bytes in a date directory older than the cutoff and one
  recent file of 900000 bytes, \<^verbatim>\<open>cleanup_logs\<close> marks both files (the total of all files,
  1500000 bytes, is over the limit, and the recent file alone is over 80 percent of it),
  while the tool's \<^verbatim>\<open>cleanup\<close> marks the old file only (the files not yet marked hold
  900000 bytes, which is under the limit).
\<close>

theorem retention_functions_differ:
  "map path_of (fst (cleanup_logs_plan
      [\<lparr>date_dir = ''2024-01-01'', stem = ''a'', mtime = 1, content = replicate 600000 CHR ''x''\<rparr>,
       \<lparr>date_dir = ''2024-06-05'', stem = ''b'', mtime = 2, content = replicate 900000 CHR ''x''\<rparr>]
      ''2024-06-01'' 7 1 100))
   = [(''2024-01-01'', ''a''), (''2024-06-05'', ''b'')]
   \<and> map path_of (fst (cleanup_plan
      [\<lparr>date_dir = ''2024-01-01'', stem = ''a'', mtime = 1, content = replicate 600000 CHR ''x''\<rparr>,
       \<lparr>date_dir = ''2024-06-05'', stem = ''b'', mtime = 2, content = replicate 900000 CHR ''x''\<rparr>]
      ''2024-06-01'' 7 1 100))
   = [(''2024-01-01'', ''a'')]"
  by (simp add: plan_defs)

text \<open>
  Claim C8. When the deletion of a file fails, the pass goes on and does not count the
  file, but the freed bytes it reports, computed before the deletions, still contain the
  size of that file: of two old files of 10 and 20 bytes, the first of which cannot be
  removed, one is deleted and 30 bytes are reported as freed.
\<close>

theorem failed_deletion_counted_as_freed:
  "cleanup_logs (sample_env\<lparr>unlink_ok := (\<lambda>p. p \<noteq> (''2024-01-01'', ''a''))\<rparr>)
     (Some \<lparr>files =
        [\<lparr>date_dir = ''2024-01-01'', stem = ''a'', mtime = 1, content = replicate 10 CHR ''x''\<rparr>,
         \<lparr>date_dir = ''2024-01-02'', stem = ''b'', mtime = 2, content = replicate 20 CHR ''x''\<rparr>],
        dirs = [''2024-01-01'', ''2024-01-02'']\<rparr>)
     ''2024-06-01'' 7 50 100 False
   = (Some \<lparr>files =
        [\<lparr>date_dir = ''2024-01-01'', stem = ''a'', mtime = 1, content = replicate 10 CHR ''x''\<rparr>],
        dirs = [''2024-01-01'']\<rparr>,
      Report \<lparr>deleted_files = 1, freed_bytes = 30, cl_dry_run = False, cl_files = [],
               cl_reasons = []\<rparr>)"
  by (simp add: cleanup_logs_def plan_defs sample_env_def rmdir_empty_def)

subsection \<open>The size stage\<close>




























subsection \<open>Hysteresis of the size stage\<close>





section \<open>Dry run, statistics and escalations\<close>

lemma compact_old_sessions_dry_run:
  assumes "compact_old_sessions e loads (Some st) cutoff True = (st', r)"
  shows "st' = Some st \<and> (\<forall>res. r = Inr res \<longrightarrow> compacted_files res = 0 \<and> saved_bytes res = 0)"
proof -
  obtain fs q where l: "compact_loop e loads cutoff True (files st) [] 0 0 = (fs, q)"
    by (cases "compact_loop e loads cutoff True (files st) [] 0 0") auto
  from compact_loop_dry [OF l] have fs: "fs = files st" and q: "q = Inr (0, 0) \<or> (\<exists>err. q = Inl err)"
    by simp_all
  from q show ?thesis
  proof
    assume "q = Inr (0, 0)"
    with l fs assms show ?thesis by (auto simp: compact_old_sessions_def)
  next
    assume "\<exists>err. q = Inl err"
    with l fs assms show ?thesis by (auto simp: compact_old_sessions_def)
  qed
qed

text \<open>
  Claim C3. For retention the dry run returns the plan that the run without dry run
  deletes (lemma \<open>cleanup_logs_dry_run\<close>). For compaction it does not: on a store with
  one old session file of one debug record and one decision record, the dry run leaves
  the store as it is and reports 0 files and 0 bytes, while the run without dry run
  compacts 1 file and saves 38 bytes.
\<close>

theorem dry_run_compaction_reports_nothing:
  \<open>compact_old_sessions sample_env sample_loads
       (Some \<lparr>files = [\<lparr>date_dir = ''2024-01-01'', stem = ''s1'', mtime = 5,
          content = ''{"lvl":"debug","evt":"hook.pre_tool"}'' @ [LF] @
                    ''{"lvl":"info","evt":"decision.made"}'' @ [LF]\<rparr>],
        dirs = [''2024-01-01'']\<rparr>) ''2024-06-01'' True
     = (Some \<lparr>files = [\<lparr>date_dir = ''2024-01-01'', stem = ''s1'', mtime = 5,
          content = ''{"lvl":"debug","evt":"hook.pre_tool"}'' @ [LF] @
                    ''{"lvl":"info","evt":"decision.made"}'' @ [LF]\<rparr>],
        dirs = [''2024-01-01'']\<rparr>,
        Inr \<lparr>compacted_files = 0, saved_bytes = 0, co_dry_run = Some True\<rparr>)
   \<and> compact_old_sessions sample_env sample_loads
       (Some \<lparr>files = [\<lparr>date_dir = ''2024-01-01'', stem = ''s1'', mtime = 5,
          content = ''{"lvl":"debug","evt":"hook.pre_tool"}'' @ [LF] @
                    ''{"lvl":"info","evt":"decision.made"}'' @ [LF]\<rparr>],
        dirs = [''2024-01-01'']\<rparr>) ''2024-06-01'' False
     = (Some \<lparr>files = [\<lparr>date_dir = ''2024-01-01'', stem = ''s1'', mtime = 1000,
          content = ''{"lvl":"info","evt":"decision.made"}'' @ [LF]\<rparr>],
        dirs = [''2024-01-01'']\<rparr>,
        Inr \<lparr>compacted_files = 1, saved_bytes = 38, co_dry_run = Some False\<rparr>)\<close>
  by (simp add: compact_old_sessions_def eval_defs)

text \<open>
  Claim C9. For a store root that does not exist, \<^verbatim>\<open>get_log_stats\<close> returns a dictionary
  with zero files, zero bytes and no oldest and newest date, but without the key
  \<^verbatim>\<open>dates\<close>; for a root that exists and is empty the key is there, with the empty list.
\<close>

theorem stats_of_missing_root_lacks_dates:
  "map_of (get_log_stats None) ''total_files'' = Some (JInt 0)
   \<and> map_of (get_log_stats None) ''total_size_bytes'' = Some (JInt 0)
   \<and> map_of (get_log_stats None) ''oldest_date'' = Some JNull
   \<and> map_of (get_log_stats None) ''newest_date'' = Some JNull
   \<and> map_of (get_log_stats None) ''dates'' = None
   \<and> map_of (get_log_stats (Some \<lparr>files = [], dirs = []\<rparr>)) ''dates'' = Some (JList [])"
  by (simp add: get_log_stats_def)

lemma scan_lines_keeps:
  assumes "strip raw \<noteq> []" "loads (strip raw) = Some j" "keep_entry j = Inr True"
    and "scan_lines loads (pre @ raw # post) acc = Inr kept"
  shows "strip raw \<in> set kept"
  using scan_lines_Inr [OF assms(4)] assms(1-3) by simp

lemma escalation_log_call:
  assumes d: "distinct (map fst kwargs)"
    and k: "\<forall>k \<in> set (map fst kwargs).
              k \<notin> set [''self'', ''lvl'', ''evt'', ''msg'', ''severity'', ''context'']"
  shows "\<exists>kws. escalation dumps now w reason severity context kwargs =
            log_call dumps now w (if severity = ''security'' then ''error'' else ''warn'')
              ''escalation.raised'' reason kws
          \<and> \<not> list_ex (\<lambda>k. k \<in> set [''self'', ''lvl'', ''evt'', ''msg'']) (map fst kws)"
proof -
  let ?extra = "[(''severity'', JStr severity)]"
  let ?extra1 = "case context of None \<Rightarrow> ?extra
                 | Some c \<Rightarrow> if c \<noteq> [] then dict_set ?extra ''context'' (JStr c) else ?extra"
  have keys: "set (map fst ?extra1) \<subseteq> {''severity'', ''context''}" "distinct (map fst ?extra1)"
    by (auto split: option.splits)
  have disj: "set (map fst ?extra1) \<inter> set (map fst kwargs) = {}"
  proof (rule ccontr)
    assume "set (map fst ?extra1) \<inter> set (map fst kwargs) \<noteq> {}"
    then obtain x where x: "x \<in> set (map fst ?extra1)" "x \<in> set (map fst kwargs)"
      by blast
    from x(1) keys(1) have "x = ''severity'' \<or> x = ''context''" by blast
    moreover from x(2) k have "x \<noteq> ''severity'' \<and> x \<noteq> ''context''" by auto
    ultimately show False by blast
  qed
  from keys(2) d disj have dist: "distinct (map fst (?extra1 @ kwargs))"
    by simp
  have ok: "\<not> list_ex (\<lambda>k. k \<in> set [''self'', ''lvl'', ''evt'', ''msg''])
      (map fst (?extra1 @ kwargs))"
  proof
    assume "list_ex (\<lambda>k. k \<in> set [''self'', ''lvl'', ''evt'', ''msg'']) (map fst (?extra1 @ kwargs))"
    then obtain x where x: "x \<in> set (map fst ?extra1) \<or> x \<in> set (map fst kwargs)"
      "x \<in> set [''self'', ''lvl'', ''evt'', ''msg'']"
      by (auto simp: list_ex_iff)
    from x(1) show False
    proof
      assume "x \<in> set (map fst ?extra1)"
      with keys(1) have "x = ''severity'' \<or> x = ''context''" by blast
      with x(2) show False by auto
    next
      assume "x \<in> set (map fst kwargs)"
      with k x(2) show False by auto
    qed
  qed
  from dist have "escalation dumps now w reason severity context kwargs =
            log_call dumps now w (if severity = ''security'' then ''error'' else ''warn'')
              ''escalation.raised'' reason (?extra1 @ kwargs)"
    by (simp add: escalation_def Let_def)
  with ok show ?thesis by blast
qed

text \<open>
  Claim C10. A call of \<^verbatim>\<open>escalation\<close> whose extra keywords are distinct and name no
  parameter returns, and appends one line, the serialised entry, where the entry has
  \<^verbatim>\<open>evt\<close> escalation.raised and \<^verbatim>\<open>lvl\<close> error for the severity security and warn for
  every other severity. The test of compaction holds on this entry, so whenever a line
  of a file parses to it, the loop over the lines keeps that line.
\<close>

theorem escalation_records_survive_compaction:
  assumes "distinct (map fst kwargs)"
    and "\<forall>k \<in> set (map fst kwargs).
           k \<notin> set [''self'', ''lvl'', ''evt'', ''msg'', ''severity'', ''context'']"
  shows "\<exists>c w1 entry.
      escalation dumps now w reason severity context kwargs = Inr (c, w1)
    \<and> log_file w1 = log_file w @ dumps (JDict entry) @ [LF]
    \<and> dict_get entry ''evt'' JNull = JStr ''escalation.raised''
    \<and> dict_get entry ''lvl'' JNull = JStr (if severity = ''security'' then ''error'' else ''warn'')
    \<and> keep_entry (JDict entry) = Inr True
    \<and> (\<forall>loads pre raw post kept.
          strip raw \<noteq> [] \<and> loads (strip raw) = Some (JDict entry)
          \<and> scan_lines loads (pre @ raw # post) [] = Inr kept
          \<longrightarrow> strip raw \<in> set kept)"
proof -
  let ?lvl = "if severity = ''security'' then ''error'' else ''warn''"
  from escalation_log_call [OF assms, of dumps now w reason severity "context"]
  obtain kws where
    e: "escalation dumps now w reason severity context kwargs =
          log_call dumps now w ?lvl ''escalation.raised'' reason kws"
    and ok: "\<not> list_ex (\<lambda>k. k \<in> set [''self'', ''lvl'', ''evt'', ''msg'']) (map fst kws)"
    by blast
  let ?m = "if length reason > 100 then take 97 reason @ ''...'' else reason"
  let ?kw = "filter (\<lambda>kv. fst kv \<noteq> ''cid'') kws"
  from log_call_ok [OF ok, of dumps now w ?lvl "''escalation.raised''" reason]
  obtain c w1 where
    r: "log_call dumps now w ?lvl ''escalation.raised'' reason kws =
        Inr (c, w1\<lparr>log_file := log_file w @
               dumps (JDict (log_entry now w1 ?lvl c ''escalation.raised'' ?m ?kw)) @ [LF]\<rparr>)"
    by blast
  let ?entry = "log_entry now w1 ?lvl c ''escalation.raised'' ?m ?kw"
  from ok have nk: "''evt'' \<notin> fst ` set ?kw" "''lvl'' \<notin> fst ` set ?kw"
    by (auto simp: list_ex_iff)
  have evt: "dict_get ?entry ''evt'' dflt = JStr ''escalation.raised''" for dflt
    using nk(1) by (rule log_entry_evt)
  have lvl: "dict_get ?entry ''lvl'' dflt = JStr ?lvl" for dflt
    using nk(2) by (rule log_entry_lvl)
  have keep: "keep_entry (JDict ?entry) = Inr True"
    by (simp add: keep_entry_def Let_def evt preserve_events_def)
  have surv: "\<forall>loads pre raw post kept.
          strip raw \<noteq> [] \<and> loads (strip raw) = Some (JDict ?entry)
          \<and> scan_lines loads (pre @ raw # post) [] = Inr kept
          \<longrightarrow> strip raw \<in> set kept"
    using keep by (blast intro: scan_lines_keeps)
  let ?w1 = "w1\<lparr>log_file := log_file w @ dumps (JDict ?entry) @ [LF]\<rparr>"
  have run: "escalation dumps now w reason severity context kwargs = Inr (c, ?w1)"
    using e r by simp
  have fl: "log_file ?w1 = log_file w @ dumps (JDict ?entry) @ [LF]"
    by simp
  from run fl evt [of JNull] lvl [of JNull] keep surv show ?thesis
    by blast
qed

theorem escalation_records_survive_compaction_witness:
  "\<exists>c w1 entry.
      escalation (\<lambda>j. ''{}'') ''t0'' (init_logger ''s1'' ''orch:default'' []) ''key leaked''
        ''security'' (Some ''vault'') [(''ticket'', JInt 7)] = Inr (c, w1)
    \<and> dict_get entry ''evt'' JNull = JStr ''escalation.raised''
    \<and> dict_get entry ''lvl'' JNull = JStr ''error''
    \<and> keep_entry (JDict entry) = Inr True"
proof -
  have h1: "distinct (map fst [(''ticket'', JInt 7)])" by simp
  have h2: "\<forall>k \<in> set (map fst [(''ticket'', JInt 7)]).
           k \<notin> set [''self'', ''lvl'', ''evt'', ''msg'', ''severity'', ''context'']"
    by simp
  from escalation_records_survive_compaction [OF h1 h2,
      of "\<lambda>j. ''{}''" "''t0''" "init_logger ''s1'' ''orch:default'' []" "''key leaked''"
         "''security''" "Some ''vault''"]
  obtain c w1 entry where
    "escalation (\<lambda>j. ''{}'') ''t0'' (init_logger ''s1'' ''orch:default'' []) ''key leaked''
        ''security'' (Some ''vault'') [(''ticket'', JInt 7)] = Inr (c, w1)"
    "dict_get entry ''evt'' JNull = JStr ''escalation.raised''"
    "dict_get entry ''lvl'' JNull = JStr (if ''security'' = ''security'' then ''error'' else ''warn'')"
    "keep_entry (JDict entry) = Inr True"
    by blast
  then show ?thesis
    by (intro exI [of _ c] exI [of _ w1] exI [of _ entry]) simp
qed

end
